theory Spec2Isabelle
  imports Main "HOL-Library.Word" "HOL-Library.Sublist" "HOL-Library.Char_ord"
begin

unbundle bit_operations_syntax

chapter \<open>mu\_json and mu\_jems: a shallow embedding\<close>

text \<open>
  The theory follows the two C files of the repository. \<^verbatim>\<open>mu_jems.c\<close> (the emitter)
  comes first because it is self-contained; \<^verbatim>\<open>mu_json.c\<close> (the tokenizer and
  the token navigation functions) follows.

  Conventions. A C string argument is a \<^typ>\<open>char list\<close>; a function that walks it up
  to the terminating NUL walks the list up to its first zero byte (or its end); a
  \<^verbatim>\<open>uint8_t\<close> buffer is a \<^typ>\<open>char list\<close> as well, \<^typ>\<open>char\<close> being the 8-bit byte. A
  \<^verbatim>\<open>size_t\<close> is a 64-bit word, so that \<^verbatim>\<open>max_level - 1\<close> wraps as it does in C. A
  pointer into an array is the index of the element.
\<close>

section \<open>The emitter: mu\_jems.c\<close>

subsection \<open>State\<close>

type_synonym size_t = "64 word"

text \<open>\<^verbatim>\<open>mu_jems_level_t\<close>: one nesting frame.\<close>

record mu_jems_level_t =
  item_count :: size_t
  is_object :: bool

text \<open>
  \<^verbatim>\<open>mu_jems_t\<close>. The writer callback and its opaque argument are represented by their
  effect: \<open>written\<close> is the sequence of bytes handed to the writer so far, one entry
  per call, in call order.
\<close>

record mu_jems_t =
  levels :: "mu_jems_level_t list"
  max_level :: size_t
  curr_level :: size_t
  written :: "char list"

subsection \<open>Private helpers\<close>

definition level_ref :: "mu_jems_t \<Rightarrow> nat" where
  "level_ref jems = unat (curr_level jems)"

definition emit_char :: "mu_jems_t \<Rightarrow> char \<Rightarrow> mu_jems_t" where
  "emit_char jems ch = jems\<lparr>written := written jems @ [ch]\<rparr>"

text \<open>\<^verbatim>\<open>while (*s) emit_char(jems, *s++)\<close>: stops at the first NUL.\<close>

fun emit_string :: "mu_jems_t \<Rightarrow> char list \<Rightarrow> mu_jems_t" where
  "emit_string jems [] = jems"
| "emit_string jems (c # s) =
     (if c = CHR 0x00 then jems else emit_string (emit_char jems c) s)"

definition push_level :: "mu_jems_t \<Rightarrow> bool \<Rightarrow> mu_jems_t" where
  "push_level jems is_obj =
     (if curr_level jems < max_level jems - 1 then
        (let j1 = jems\<lparr>curr_level := curr_level jems + 1\<rparr>;
             j2 = j1\<lparr>levels := (levels j1)[level_ref j1 :=
                        (levels j1 ! level_ref j1)\<lparr>item_count := 0\<rparr>]\<rparr>;
             j3 = j2\<lparr>levels := (levels j2)[level_ref j2 :=
                        (levels j2 ! level_ref j2)\<lparr>is_object := is_obj\<rparr>]\<rparr>
         in j3)
      else jems)"

definition pop_level :: "mu_jems_t \<Rightarrow> mu_jems_t" where
  "pop_level jems =
     (if curr_level jems > 0 then jems\<lparr>curr_level := curr_level jems - 1\<rparr> else jems)"

definition commify :: "mu_jems_t \<Rightarrow> mu_jems_t" where
  "commify jems =
     (let lvl = level_ref jems;
          count = item_count (levels jems ! lvl);
          j1 = (if is_object (levels jems ! lvl) then
                  (if count > 0 then
                     emit_char jems (if count AND 1 \<noteq> 0 then CHR '':'' else CHR '','')
                   else jems)
                else
                  (if count > 0 then emit_char jems CHR '','' else jems))
      in j1\<lparr>levels := (levels j1)[lvl :=
              (levels j1 ! lvl)\<lparr>item_count := item_count (levels j1 ! lvl) + 1\<rparr>]\<rparr>)"

subsection \<open>The C library's number formatting\<close>

text \<open>
  \<^verbatim>\<open>snprintf\<close> belongs to the C library, not to the repository. Only the two
  conversions that \<^verbatim>\<open>mu_jems.c\<close> uses are modelled, after the C standard's
  description of \<^verbatim>\<open>fprintf\<close>.
\<close>

definition digit_char :: "nat \<Rightarrow> char" where
  "digit_char d = ''0123456789abcdef'' ! d"

fun dec_digits :: "nat \<Rightarrow> char list" where
  "dec_digits n = (if n < 10 then [digit_char n] else dec_digits (n div 10) @ [digit_char (n mod 10)])"

declare dec_digits.simps [simp del]

text \<open>\<^verbatim>\<open>"%" PRId64\<close>: optional minus sign and the decimal digits.\<close>

definition snprintf_d64 :: "int \<Rightarrow> char list" where
  "snprintf_d64 i = (if i < 0 then ''-'' else []) @ dec_digits (nat \<bar>i\<bar>)"

text \<open>
  A finite \<^verbatim>\<open>double\<close> is represented by an integer mantissa and a binary exponent:
  the value \<open>mantissa * 2 ^ exponent\<close>. (An IEEE double has a mantissa below \<open>2 ^ 53\<close>
  in absolute value; NaN and the infinities are not represented.)
\<close>

record double =
  mantissa :: int
  exponent :: int

text \<open>
  \<^verbatim>\<open>"%lf"\<close> prints style \<^verbatim>\<open>[-]ddd.dddddd\<close> with the default precision of six
  digits after the point, the value rounded to that many digits (a tie goes to the even
  neighbour, as under the default IEEE rounding mode). \<open>scaled_round\<close> is the value
  times \<open>10 ^ 6\<close>, rounded so.
\<close>

definition scaled_round :: "double \<Rightarrow> nat" where
  "scaled_round v =
     (let m = nat \<bar>mantissa v\<bar> * 1000000
      in if exponent v \<ge> 0 then m * 2 ^ nat (exponent v)
         else (let d = 2 ^ nat (- exponent v); f = m div d; r = m mod d
               in if 2 * r > d \<or> (2 * r = d \<and> odd f) then f + 1 else f))"

definition pad6 :: "char list \<Rightarrow> char list" where
  "pad6 ds = replicate (6 - length ds) CHR ''0'' @ ds"

definition snprintf_lf :: "double \<Rightarrow> char list" where
  "snprintf_lf v =
     (let q = scaled_round v
      in (if mantissa v < 0 then ''-'' else [])
         @ dec_digits (q div 1000000) @ ''.'' @ pad6 (dec_digits (q mod 1000000)))"

text \<open>
  The conversion \<^verbatim>\<open>int64_t i = value\<close> truncates toward zero. It is undefined in C
  when the truncated value does not fit \<^verbatim>\<open>int64_t\<close>; the model returns \<open>None\<close> there.
\<close>

definition double_to_int64 :: "double \<Rightarrow> int option" where
  "double_to_int64 v =
     (let t = (if exponent v \<ge> 0 then mantissa v * 2 ^ nat (exponent v)
               else sgn (mantissa v) * (\<bar>mantissa v\<bar> div 2 ^ nat (- exponent v)))
      in if - (2 ^ 63) \<le> t \<and> t < 2 ^ 63 then Some t else None)"

text \<open>\<^verbatim>\<open>(double)i == value\<close>, for \<open>i\<close> the truncation of \<open>value\<close>.\<close>

definition int64_eq_double :: "int \<Rightarrow> double \<Rightarrow> bool" where
  "int64_eq_double i v =
     (if exponent v \<ge> 0 then i = mantissa v * 2 ^ nat (exponent v)
      else i * 2 ^ nat (- exponent v) = mantissa v)"

subsection \<open>Public functions\<close>

definition mu_jems_reset :: "mu_jems_t \<Rightarrow> mu_jems_t" where
  "mu_jems_reset jems =
     (let j1 = jems\<lparr>curr_level := 0\<rparr>;
          j2 = j1\<lparr>levels := (levels j1)[level_ref j1 :=
                     (levels j1 ! level_ref j1)\<lparr>item_count := 0\<rparr>]\<rparr>;
          j3 = j2\<lparr>levels := (levels j2)[level_ref j2 :=
                     (levels j2 ! level_ref j2)\<lparr>is_object := False\<rparr>]\<rparr>
      in j3)"

text \<open>
  \<^verbatim>\<open>mu_jems_init\<close> stores the caller's frame array, its size and the writer, then
  resets. A fresh writer has received nothing.
\<close>

definition mu_jems_init :: "mu_jems_level_t list \<Rightarrow> size_t \<Rightarrow> mu_jems_t" where
  "mu_jems_init lvls max_lvl =
     mu_jems_reset \<lparr>levels = lvls, max_level = max_lvl, curr_level = 0, written = []\<rparr>"

definition mu_jems_object_open :: "mu_jems_t \<Rightarrow> mu_jems_t" where
  "mu_jems_object_open jems = push_level (emit_char (commify jems) CHR ''{'') True"

definition mu_jems_object_close :: "mu_jems_t \<Rightarrow> mu_jems_t" where
  "mu_jems_object_close jems = pop_level (emit_char jems CHR ''}'')"

definition mu_jems_array_open :: "mu_jems_t \<Rightarrow> mu_jems_t" where
  "mu_jems_array_open jems = push_level (emit_char (commify jems) CHR ''['') False"

definition mu_jems_array_close :: "mu_jems_t \<Rightarrow> mu_jems_t" where
  "mu_jems_array_close jems = pop_level (emit_char jems CHR '']'')"

text \<open>
  \<^verbatim>\<open>buf[22]\<close> receives at most 21 characters from \<^verbatim>\<open>snprintf\<close>, hence \<open>take 21\<close>. The
  result is \<open>None\<close> exactly where the conversion to \<^verbatim>\<open>int64_t\<close> is undefined.
\<close>

definition mu_jems_number :: "mu_jems_t \<Rightarrow> double \<Rightarrow> mu_jems_t option" where
  "mu_jems_number jems v =
     (case double_to_int64 v of
        None \<Rightarrow> None
      | Some i \<Rightarrow>
          (let buf = (if int64_eq_double i v then take 21 (snprintf_d64 i)
                      else take 21 (snprintf_lf v))
           in Some (emit_string (commify jems) buf)))"

definition mu_jems_integer :: "mu_jems_t \<Rightarrow> 64 word \<Rightarrow> mu_jems_t" where
  "mu_jems_integer jems v =
     (let buf = take 21 (snprintf_d64 (sint v)) in emit_string (commify jems) buf)"

text \<open>
  \<^verbatim>\<open>sprintf(buf, "\\u%04x", byte)\<close> for a byte: \<^verbatim>\<open>\u00\<close> and two lowercase hex
  digits.
\<close>

definition emit_quoted_byte :: "mu_jems_t \<Rightarrow> char \<Rightarrow> mu_jems_t" where
  "emit_quoted_byte jems byte =
     (if (of_char byte :: nat) < 0x20 \<or> (of_char byte :: nat) \<ge> 127 then
        emit_string jems
          ([CHR 0x5C, CHR ''u'', CHR ''0'', CHR ''0'',
            digit_char (of_char byte div 16), digit_char (of_char byte mod 16)])
      else
        (let j1 = (if byte = CHR 0x5C \<or> byte = CHR 0x22 then emit_char jems CHR 0x5C
                   else jems)
         in emit_char j1 byte))"

fun emit_quoted_string :: "mu_jems_t \<Rightarrow> char list \<Rightarrow> mu_jems_t" where
  "emit_quoted_string jems [] = jems"
| "emit_quoted_string jems (c # s) =
     (if c = CHR 0x00 then jems else emit_quoted_string (emit_quoted_byte jems c) s)"

fun emit_quoted_bytes :: "mu_jems_t \<Rightarrow> char list \<Rightarrow> mu_jems_t" where
  "emit_quoted_bytes jems [] = jems"
| "emit_quoted_bytes jems (b # bs) = emit_quoted_bytes (emit_quoted_byte jems b) bs"

definition mu_jems_string :: "mu_jems_t \<Rightarrow> char list \<Rightarrow> mu_jems_t" where
  "mu_jems_string jems s =
     emit_char (emit_quoted_string (emit_char (commify jems) CHR 0x22) s) CHR 0x22"







definition mu_jems_key_array_open :: "mu_jems_t \<Rightarrow> char list \<Rightarrow> mu_jems_t" where
  "mu_jems_key_array_open jems key = mu_jems_array_open (mu_jems_string jems key)"

definition mu_jems_key_object_open :: "mu_jems_t \<Rightarrow> char list \<Rightarrow> mu_jems_t" where
  "mu_jems_key_object_open jems key = mu_jems_object_open (mu_jems_string jems key)"

definition mu_jems_key_integer :: "mu_jems_t \<Rightarrow> char list \<Rightarrow> 64 word \<Rightarrow> mu_jems_t" where
  "mu_jems_key_integer jems key v = mu_jems_integer (mu_jems_string jems key) v"

definition mu_jems_key_number :: "mu_jems_t \<Rightarrow> char list \<Rightarrow> double \<Rightarrow> mu_jems_t option" where
  "mu_jems_key_number jems key v = mu_jems_number (mu_jems_string jems key) v"

definition mu_jems_curr_level :: "mu_jems_t \<Rightarrow> size_t" where
  "mu_jems_curr_level jems = curr_level jems"

definition mu_jems_item_count :: "mu_jems_t \<Rightarrow> size_t" where
  "mu_jems_item_count jems = item_count (levels jems ! level_ref jems)"

section \<open>The tokenizer: mu\_json.c\<close>

subsection \<open>Types of mu\_json.h\<close>

datatype mu_json_err_t =
    MU_JSON_ERR_NONE
  | MU_JSON_ERR_BAD_FORMAT
  | MU_JSON_ERR_INCOMPLETE
  | MU_JSON_ERR_NO_ENTITIES
  | MU_JSON_ERR_STRAY_INPUT
  | MU_JSON_ERR_NOT_ENOUGH_TOKENS
  | MU_JSON_ERR_BAD_ARGUMENT
  | MU_JSON_ERR_TOO_DEEP
  | MU_JSON_ERR_NO_MULTIBYTE
  | MU_JSON_ERR_INTERNAL

text \<open>The integer value of each enumerator, as \<^verbatim>\<open>DEFINE_MU_JSON_ERRORS\<close> gives it.\<close>

fun err_value :: "mu_json_err_t \<Rightarrow> int" where
  "err_value MU_JSON_ERR_NONE = 0"
| "err_value MU_JSON_ERR_BAD_FORMAT = - 1"
| "err_value MU_JSON_ERR_INCOMPLETE = - 2"
| "err_value MU_JSON_ERR_NO_ENTITIES = - 3"
| "err_value MU_JSON_ERR_STRAY_INPUT = - 4"
| "err_value MU_JSON_ERR_NOT_ENOUGH_TOKENS = - 5"
| "err_value MU_JSON_ERR_BAD_ARGUMENT = - 6"
| "err_value MU_JSON_ERR_TOO_DEEP = - 7"
| "err_value MU_JSON_ERR_NO_MULTIBYTE = - 8"
| "err_value MU_JSON_ERR_INTERNAL = - 9"

datatype mu_json_token_type_t =
    MU_JSON_TOKEN_TYPE_UNKNOWN
  | MU_JSON_TOKEN_TYPE_ARRAY
  | MU_JSON_TOKEN_TYPE_OBJECT
  | MU_JSON_TOKEN_TYPE_STRING
  | MU_JSON_TOKEN_TYPE_NUMBER
  | MU_JSON_TOKEN_TYPE_INTEGER
  | MU_JSON_TOKEN_TYPE_TRUE
  | MU_JSON_TOKEN_TYPE_FALSE
  | MU_JSON_TOKEN_TYPE_NULL

text \<open>
  \<^verbatim>\<open>mu_json_token_t\<close>. The fields are those of the C struct, prefixed with \<open>tok_\<close>
  because the parser struct has fields of the same names. \<open>tok_str\<close> points into the
  input: it is the offset of the token's first byte, or \<open>None\<close> for a null pointer. The
  bit-fields \<^verbatim>\<open>str_len : 16\<close> and \<^verbatim>\<open>level : 11\<close> are words of those widths, so that a
  store truncates as the C assignment does.
\<close>

record mu_json_token_t =
  tok_str :: "nat option"
  tok_str_len :: "16 word"
  tok_type :: mu_json_token_type_t
  tok_level :: "11 word"
  tok_is_last :: bool

text \<open>What \<^verbatim>\<open>memset(tokens, 0, ...)\<close> leaves in a token.\<close>

definition zero_token :: mu_json_token_t where
  "zero_token = \<lparr>tok_str = None, tok_str_len = 0, tok_type = MU_JSON_TOKEN_TYPE_UNKNOWN,
                  tok_level = 0, tok_is_last = False\<rparr>"

subsection \<open>The parser state\<close>

text \<open>
  \<^verbatim>\<open>parser_t\<close>. \<open>str\<close> is the caller's buffer, \<open>str_len\<close> the length the caller declared
  (an \<^verbatim>\<open>int\<close>, possibly negative). \<open>str_pos\<close> and \<open>token_count\<close> start at 0 and are only
  ever incremented, so they are natural numbers. The field \<^verbatim>\<open>current_token\<close> is
  written once (to null) and never read; it is left out.
\<close>

record parser_t =
  str :: "char list"
  str_len :: int
  str_pos :: nat
  token_store :: "mu_json_token_t list"
  max_tokens :: int
  token_count :: nat
  level :: int

definition at_eos :: "parser_t \<Rightarrow> bool" where
  "at_eos p = (int (str_pos p) \<ge> str_len p)"

definition peek_char :: "parser_t \<Rightarrow> char" where
  "peek_char p = str p ! str_pos p"

definition get_char :: "parser_t \<Rightarrow> char \<times> parser_t" where
  "get_char p = (str p ! str_pos p, p\<lparr>str_pos := str_pos p + 1\<rparr>)"

definition ref_char :: "parser_t \<Rightarrow> nat" where
  "ref_char p = str_pos p"

definition is_digit :: "char \<Rightarrow> bool" where
  "is_digit ch = (ch \<ge> CHR ''0'' \<and> ch \<le> CHR ''9'')"

definition is_hex :: "char \<Rightarrow> bool" where
  "is_hex ch = ((ch \<ge> CHR ''0'' \<and> ch \<le> CHR ''9'') \<or> (ch \<ge> CHR ''A'' \<and> ch \<le> CHR ''F'')
                \<or> (ch \<ge> CHR ''a'' \<and> ch \<le> CHR ''f''))"

definition is_number_prefix :: "char \<Rightarrow> bool" where
  "is_number_prefix ch = (ch = CHR ''-'' \<or> (ch \<ge> CHR ''0'' \<and> ch \<le> CHR ''9''))"

text \<open>\<^verbatim>\<open>ch & 0x80\<close>: the high bit of the byte.\<close>

definition high_bit :: "char \<Rightarrow> bool" where
  "high_bit ch = ((of_char ch :: nat) AND 0x80 \<noteq> 0)"

subsection \<open>Token accessors used by the parser\<close>

definition set_token_string :: "mu_json_token_t \<Rightarrow> nat \<Rightarrow> mu_json_token_t" where
  "set_token_string token s = token\<lparr>tok_str := Some s\<rparr>"

definition get_token_string :: "mu_json_token_t \<Rightarrow> nat option" where
  "get_token_string token = tok_str token"

definition set_token_string_length :: "mu_json_token_t \<Rightarrow> int \<Rightarrow> mu_json_token_t" where
  "set_token_string_length token n = token\<lparr>tok_str_len := of_int n\<rparr>"

definition set_token_type :: "mu_json_token_t \<Rightarrow> mu_json_token_type_t \<Rightarrow> mu_json_token_t" where
  "set_token_type token ty = token\<lparr>tok_type := ty\<rparr>"

definition set_token_level :: "mu_json_token_t \<Rightarrow> int \<Rightarrow> mu_json_token_t" where
  "set_token_level token lvl = token\<lparr>tok_level := of_int lvl\<rparr>"

definition set_token_is_last :: "mu_json_token_t \<Rightarrow> bool \<Rightarrow> mu_json_token_t" where
  "set_token_is_last token b = token\<lparr>tok_is_last := b\<rparr>"

text \<open>
  A token pointer held by the parser is an index into \<open>token_store\<close>. \<open>on_token p tok f\<close>
  is the store after \<open>f\<close> has been applied through the pointer \<open>tok\<close>.
\<close>

definition on_token ::
  "parser_t \<Rightarrow> nat \<Rightarrow> (mu_json_token_t \<Rightarrow> mu_json_token_t) \<Rightarrow> parser_t" where
  "on_token p tok f = p\<lparr>token_store := (token_store p)[tok := f (token_store p ! tok)]\<rparr>"

text \<open>
  The pointer difference \<^verbatim>\<open>ref_char(p) - get_token_string(tok)\<close>. Every token that is
  finalised was given its start by \<open>init_token\<close>; a null start (where C has no defined
  difference) counts from offset 0.
\<close>

definition ptr_diff :: "nat \<Rightarrow> nat option \<Rightarrow> int" where
  "ptr_diff a b = int a - (case b of Some s \<Rightarrow> int s | None \<Rightarrow> 0)"

definition alloc_token :: "parser_t \<Rightarrow> (nat \<times> parser_t) option" where
  "alloc_token p =
     (if int (token_count p) \<ge> max_tokens p then None
      else Some (token_count p, p\<lparr>token_count := token_count p + 1\<rparr>))"

definition init_token :: "parser_t \<Rightarrow> mu_json_token_type_t \<Rightarrow> (nat \<times> parser_t) option" where
  "init_token p ty =
     (case alloc_token p of
        None \<Rightarrow> None
      | Some (tok, p1) \<Rightarrow>
          (let p2 = on_token p1 tok (\<lambda>t. set_token_string t (ref_char p1));
               p3 = on_token p2 tok (\<lambda>t. set_token_type t ty);
               p4 = on_token p3 tok (\<lambda>t. set_token_level t (level p3))
           in Some (tok, p4)))"

definition finalize_token :: "parser_t \<Rightarrow> nat \<Rightarrow> parser_t" where
  "finalize_token p tok =
     on_token p tok (\<lambda>t. set_token_string_length t (ptr_diff (ref_char p) (get_token_string t)))"

subsection \<open>Scanning\<close>

function skip_whitespace :: "parser_t \<Rightarrow> parser_t" where
  "skip_whitespace p =
     (if \<not> at_eos p then
        (let ch = peek_char p
         in if ch = CHR '' '' \<or> ch = CHR 0x09 \<or> ch = CHR 0x0A \<or> ch = CHR 0x0D
            then skip_whitespace (snd (get_char p))
            else p)
      else p)"
  by pat_completeness auto
termination
  by (relation "measure (\<lambda>p. nat (str_len p - int (str_pos p)))")
    (auto simp: at_eos_def get_char_def)

declare skip_whitespace.simps [simp del]

text \<open>
  The loop \<^verbatim>\<open>for (int i = 0; i < 4; i++)\<close> of the \<^verbatim>\<open>\u\<close> escape, with the number of
  iterations still to run. An error is the function's \<^verbatim>\<open>return\<close>.
\<close>

fun unicode_escape :: "nat \<Rightarrow> parser_t \<Rightarrow> mu_json_err_t \<times> parser_t" where
  "unicode_escape 0 p = (MU_JSON_ERR_NONE, p)"
| "unicode_escape (Suc n) p =
     (if at_eos p \<or> \<not> is_hex (peek_char p) then (MU_JSON_ERR_BAD_FORMAT, p)
      else unicode_escape n (snd (get_char p)))"

lemma unicode_escape_advances:
  "unicode_escape n p = (e, p') \<Longrightarrow> str_len p' = str_len p \<and> str_pos p \<le> str_pos p'"
proof (induction n arbitrary: p)
  case 0
  then show ?case by simp
next
  case (Suc n)
  show ?case
  proof (cases "at_eos p \<or> \<not> is_hex (peek_char p)")
    case True
    with Suc.prems show ?thesis by auto
  next
    case False
    with Suc.prems have "unicode_escape n (snd (get_char p)) = (e, p')" by simp
    from Suc.IH [OF this] show ?thesis by (simp add: get_char_def)
  qed
qed

text \<open>
  The \<^verbatim>\<open>while (!at_eos(p))\<close> loop of \<open>parse_string\<close>. The result \<open>MU_JSON_ERR_NONE\<close> means
  that the loop was left (by \<^verbatim>\<open>break\<close> or at end of input); any other value is a
  \<^verbatim>\<open>return\<close> from inside the loop.
\<close>

function parse_string_loop :: "parser_t \<Rightarrow> mu_json_err_t \<times> parser_t" where
  "parse_string_loop p =
     (if at_eos p then (MU_JSON_ERR_NONE, p)
      else
        (let ch = peek_char p
         in if ch = CHR 0x5C then
              (let p1 = snd (get_char p)
               in if at_eos p1 then (MU_JSON_ERR_INCOMPLETE, p1)
                  else
                    (let escape_char = peek_char p1
                     in if escape_char = CHR 0x22 \<or> escape_char = CHR 0x5C
                           \<or> escape_char = CHR ''/'' \<or> escape_char = CHR ''b''
                           \<or> escape_char = CHR ''f'' \<or> escape_char = CHR ''n''
                           \<or> escape_char = CHR ''r'' \<or> escape_char = CHR ''t''
                        then parse_string_loop (snd (get_char p1))
                        else if escape_char = CHR ''u'' then
                          (case unicode_escape 4 (snd (get_char p1)) of
                             (err, p2) \<Rightarrow>
                               if err \<noteq> MU_JSON_ERR_NONE then (err, p2)
                               else parse_string_loop p2)
                        else (MU_JSON_ERR_BAD_FORMAT, p1)))
            else if high_bit ch then (MU_JSON_ERR_NO_MULTIBYTE, p)
            else if (of_char ch :: nat) < 0x20 then (MU_JSON_ERR_BAD_FORMAT, p)
            else if ch = CHR 0x22 then (MU_JSON_ERR_NONE, p)
            else parse_string_loop (snd (get_char p))))"
  by pat_completeness auto
termination
proof (relation "measure (\<lambda>p. nat (str_len p - int (str_pos p)))", goal_cases)
  case 1
  show ?case by simp
next
  case (2 p ch p1 escape_char)
  then show ?case by (auto simp: at_eos_def get_char_def)
next
  case (3 p ch p1 escape_char err p2)
  then have "unicode_escape 4 (snd (get_char p1)) = (err, p2)"
    by simp
  from unicode_escape_advances [OF this] 3(1,4,5) show ?case
    by (auto simp: at_eos_def get_char_def)
next
  case (4 p ch)
  then show ?case by (auto simp: at_eos_def get_char_def)
qed

declare parse_string_loop.simps [simp del]

subsection \<open>Strings, numbers and literals\<close>

definition parse_string :: "parser_t \<Rightarrow> mu_json_err_t \<times> parser_t" where
  "parse_string p =
     (if at_eos p \<or> peek_char p \<noteq> CHR 0x22 then (MU_JSON_ERR_INTERNAL, p)
      else
        (case init_token p MU_JSON_TOKEN_TYPE_STRING of
           None \<Rightarrow> (MU_JSON_ERR_NOT_ENOUGH_TOKENS, p)
         | Some (tok, p1) \<Rightarrow>
             (let p2 = snd (get_char p1)
              in case parse_string_loop p2 of
                   (err, p3) \<Rightarrow>
                     if err \<noteq> MU_JSON_ERR_NONE then (err, p3)
                     else if at_eos p3 then (MU_JSON_ERR_INCOMPLETE, p3)
                     else if peek_char p3 \<noteq> CHR 0x22 then (MU_JSON_ERR_INTERNAL, p3)
                     else
                       (let p4 = snd (get_char p3)
                        in (MU_JSON_ERR_NONE, finalize_token p4 tok)))))"

text \<open>
  \<open>parse_number\<close> is a sequence of blocks, each of which either returns an error or
  falls through to the next; the blocks are defined one by one, and a block's result
  \<open>MU_JSON_ERR_NONE\<close> means that it fell through. The function has three copies of
  one loop: consume digits while there are any, and set a flag if at least one was
  consumed. \<open>digits_loop flag p\<close> is that loop, entered with the flag's current value.
\<close>

function digits_loop :: "bool \<Rightarrow> parser_t \<Rightarrow> bool \<times> parser_t" where
  "digits_loop has p =
     (if \<not> at_eos p then
        (let ch = peek_char p
         in if ch \<ge> CHR ''0'' \<and> ch \<le> CHR ''9'' then digits_loop True (snd (get_char p))
            else (has, p))
      else (has, p))"
  by pat_completeness auto
termination
  by (relation "measure (\<lambda>(has, p). nat (str_len p - int (str_pos p)))")
    (auto simp: at_eos_def get_char_def)

declare digits_loop.simps [simp del]

text \<open>The block ``Parse the fractional part (if any)'' of \<open>parse_number\<close>.\<close>

definition parse_number_fraction :: "parser_t \<Rightarrow> nat \<Rightarrow> mu_json_err_t \<times> parser_t" where
  "parse_number_fraction p tok =
     (if \<not> at_eos p \<and> peek_char p = CHR ''.'' then
        (let p1 = on_token p tok (\<lambda>t. set_token_type t MU_JSON_TOKEN_TYPE_NUMBER);
             p2 = snd (get_char p1)
         in case digits_loop False p2 of
              (has_fractional_part, p3) \<Rightarrow>
                if \<not> has_fractional_part then (MU_JSON_ERR_BAD_FORMAT, p3)
                else (MU_JSON_ERR_NONE, p3))
      else (MU_JSON_ERR_NONE, p))"

text \<open>The block ``Parse the exponent part (if any)'' of \<open>parse_number\<close>.\<close>

definition parse_number_exponent :: "parser_t \<Rightarrow> nat \<Rightarrow> mu_json_err_t \<times> parser_t" where
  "parse_number_exponent p tok =
     (if \<not> at_eos p \<and> (peek_char p = CHR ''e'' \<or> peek_char p = CHR ''E'') then
        (let p1 = on_token p tok (\<lambda>t. set_token_type t MU_JSON_TOKEN_TYPE_NUMBER);
             p2 = snd (get_char p1);
             p3 = (if \<not> at_eos p2 \<and> (peek_char p2 = CHR ''+'' \<or> peek_char p2 = CHR ''-'')
                   then snd (get_char p2) else p2)
         in case digits_loop False p3 of
              (has_exponent_digits, p4) \<Rightarrow>
                if \<not> has_exponent_digits then (MU_JSON_ERR_BAD_FORMAT, p4)
                else (MU_JSON_ERR_NONE, p4))
      else (MU_JSON_ERR_NONE, p))"

text \<open>
  The first part of \<open>parse_number\<close>, from ``Check if the number is negative'' to
  ``If there was no integer part, the number is invalid'': the sign, the leading zero
  and the integer digits.
\<close>

definition parse_number_integer :: "parser_t \<Rightarrow> mu_json_err_t \<times> parser_t" where
  "parse_number_integer p =
     (let p1 = (if peek_char p = CHR ''-'' then snd (get_char p) else p)
      in if at_eos p1 then (MU_JSON_ERR_INCOMPLETE, p1)
         else
           (let has_leading_zero = (\<not> at_eos p1 \<and> peek_char p1 = CHR ''0'');
                p2 = (if has_leading_zero then snd (get_char p1) else p1)
            in if has_leading_zero \<and> \<not> at_eos p2 \<and> peek_char p2 = CHR ''0''
               then (MU_JSON_ERR_BAD_FORMAT, p2)
               else
                 (case digits_loop False p2 of
                    (has_integer_part, p3) \<Rightarrow>
                      if has_leading_zero \<and> has_integer_part
                      then (MU_JSON_ERR_BAD_FORMAT, p3)
                      else if \<not> has_leading_zero \<and> \<not> has_integer_part
                      then (MU_JSON_ERR_BAD_FORMAT, p3)
                      else (MU_JSON_ERR_NONE, p3))))"

definition parse_number :: "parser_t \<Rightarrow> mu_json_err_t \<times> parser_t" where
  "parse_number p =
     (if at_eos p \<or> \<not> is_number_prefix (peek_char p) then (MU_JSON_ERR_INTERNAL, p)
      else
        (case init_token p MU_JSON_TOKEN_TYPE_INTEGER of
           None \<Rightarrow> (MU_JSON_ERR_NOT_ENOUGH_TOKENS, p)
         | Some (tok, p1) \<Rightarrow>
             (case parse_number_integer p1 of
                (err, p2) \<Rightarrow>
                  if err \<noteq> MU_JSON_ERR_NONE then (err, p2)
                  else
                    (case parse_number_fraction p2 tok of
                       (err, p3) \<Rightarrow>
                         if err \<noteq> MU_JSON_ERR_NONE then (err, p3)
                         else
                           (case parse_number_exponent p3 tok of
                              (err, p4) \<Rightarrow>
                                if err \<noteq> MU_JSON_ERR_NONE then (err, p4)
                                else (MU_JSON_ERR_NONE, finalize_token p4 tok))))))"

text \<open>
  The loop of \<open>parse_literal\<close> that matches the keyword byte for byte, over the bytes of
  the keyword still to match.
\<close>

fun match_literal :: "char list \<Rightarrow> parser_t \<Rightarrow> mu_json_err_t \<times> parser_t" where
  "match_literal [] p = (MU_JSON_ERR_NONE, p)"
| "match_literal (c # cs) p =
     (if at_eos p then (MU_JSON_ERR_INCOMPLETE, p)
      else
        (case get_char p of
           (ch, p1) \<Rightarrow>
             if ch \<noteq> c then (MU_JSON_ERR_BAD_FORMAT, p1) else match_literal cs p1))"

definition parse_literal ::
  "parser_t \<Rightarrow> char list \<Rightarrow> mu_json_token_type_t \<Rightarrow> mu_json_err_t \<times> parser_t" where
  "parse_literal p literal ty =
     (if at_eos p then (MU_JSON_ERR_INTERNAL, p)
      else
        (case init_token p ty of
           None \<Rightarrow> (MU_JSON_ERR_NOT_ENOUGH_TOKENS, p)
         | Some (tok, p1) \<Rightarrow>
             (case match_literal literal p1 of
                (err, p2) \<Rightarrow>
                  if err \<noteq> MU_JSON_ERR_NONE then (err, p2)
                  else (MU_JSON_ERR_NONE, finalize_token p2 tok))))"

definition find_and_skip :: "parser_t \<Rightarrow> char \<Rightarrow> mu_json_err_t \<times> parser_t" where
  "find_and_skip p delimiter =
     (let p1 = skip_whitespace p
      in if at_eos p1 then (MU_JSON_ERR_BAD_FORMAT, p1)
         else if peek_char p1 \<noteq> delimiter then (MU_JSON_ERR_BAD_FORMAT, p1)
         else
           (let p2 = skip_whitespace (snd (get_char p1))
            in if at_eos p2 then (MU_JSON_ERR_BAD_FORMAT, p2)
               else (MU_JSON_ERR_NONE, p2)))"

subsection \<open>Progress through the input\<close>

text \<open>
  The recursion of the parser terminates because the read position only moves forward
  and every loop iteration consumes input. \<open>remaining\<close> counts the bytes still to read;
  \<open>advances p p'\<close> says that \<open>p'\<close> reads the same input as \<open>p\<close> from a position that
  is not earlier, \<open>consumes p p'\<close> that at least one byte was read in between.
\<close>

definition remaining :: "parser_t \<Rightarrow> nat" where
  "remaining p = nat (str_len p - int (str_pos p))"

definition advances :: "parser_t \<Rightarrow> parser_t \<Rightarrow> bool" where
  "advances p p' = (str_len p' = str_len p \<and> str_pos p \<le> str_pos p')"

definition consumes :: "parser_t \<Rightarrow> parser_t \<Rightarrow> bool" where
  "consumes p p' = (str_len p' = str_len p \<and> str_pos p < str_pos p' \<and> \<not> at_eos p)"

lemma advances_refl [simp]: "advances p p"
  by (simp add: advances_def)

lemma advances_trans: "advances p q \<Longrightarrow> advances q r \<Longrightarrow> advances p r"
  by (auto simp: advances_def)

lemma consumes_advances: "consumes p q \<Longrightarrow> advances p q"
  by (auto simp: consumes_def advances_def)

lemma consumes_then_advances: "consumes p q \<Longrightarrow> advances q r \<Longrightarrow> consumes p r"
  by (auto simp: consumes_def advances_def)

lemma advances_remaining: "advances p q \<Longrightarrow> remaining q \<le> remaining p"
  by (auto simp: advances_def remaining_def)

lemma consumes_remaining: "consumes p q \<Longrightarrow> remaining q < remaining p"
  by (auto simp: consumes_def remaining_def at_eos_def)

lemma on_token_fields [simp]:
  "str (on_token p tok f) = str p"
  "str_len (on_token p tok f) = str_len p"
  "str_pos (on_token p tok f) = str_pos p"
  "max_tokens (on_token p tok f) = max_tokens p"
  "token_count (on_token p tok f) = token_count p"
  "level (on_token p tok f) = level p"
  "length (token_store (on_token p tok f)) = length (token_store p)"
  by (simp_all add: on_token_def)

lemma on_token_scan [simp]:
  "at_eos (on_token p tok f) = at_eos p"
  "peek_char (on_token p tok f) = peek_char p"
  "ref_char (on_token p tok f) = ref_char p"
  by (simp_all add: at_eos_def peek_char_def ref_char_def)

lemma get_char_fields [simp]:
  "str (snd (get_char p)) = str p"
  "str_len (snd (get_char p)) = str_len p"
  "str_pos (snd (get_char p)) = Suc (str_pos p)"
  "max_tokens (snd (get_char p)) = max_tokens p"
  "token_count (snd (get_char p)) = token_count p"
  "level (snd (get_char p)) = level p"
  "token_store (snd (get_char p)) = token_store p"
  by (simp_all add: get_char_def)

lemma finalize_token_fields [simp]:
  "str (finalize_token p tok) = str p"
  "str_len (finalize_token p tok) = str_len p"
  "str_pos (finalize_token p tok) = str_pos p"
  "max_tokens (finalize_token p tok) = max_tokens p"
  "token_count (finalize_token p tok) = token_count p"
  "level (finalize_token p tok) = level p"
  "length (token_store (finalize_token p tok)) = length (token_store p)"
  by (simp_all add: finalize_token_def)

lemma init_token_fields:
  assumes "init_token p ty = Some (tok, p1)"
  shows "str p1 = str p" "str_len p1 = str_len p" "str_pos p1 = str_pos p"
    "max_tokens p1 = max_tokens p" "level p1 = level p"
    "tok = token_count p" "token_count p1 = Suc (token_count p)"
    "int (token_count p) < max_tokens p"
    "length (token_store p1) = length (token_store p)"
  using assms
  by (auto simp: init_token_def alloc_token_def Let_def on_token_def split: if_splits)

lemma init_token_scan:
  assumes "init_token p ty = Some (tok, p1)"
  shows "at_eos p1 = at_eos p" "peek_char p1 = peek_char p"
  using init_token_fields [OF assms] by (simp_all add: at_eos_def peek_char_def)

lemma init_token_advances: "init_token p ty = Some (tok, p1) \<Longrightarrow> advances p p1"
  by (simp add: advances_def init_token_fields)

lemma get_char_consumes: "\<not> at_eos p \<Longrightarrow> consumes p (snd (get_char p))"
  by (simp add: consumes_def)

lemma get_char_advances: "advances p (snd (get_char p))"
  by (simp add: advances_def)

lemma skip_whitespace_advances: "advances p (skip_whitespace p)"
proof (induction p rule: skip_whitespace.induct)
  case (1 p)
  show ?case
  proof (cases "\<not> at_eos p \<and> (peek_char p = CHR '' '' \<or> peek_char p = CHR 0x09
      \<or> peek_char p = CHR 0x0A \<or> peek_char p = CHR 0x0D)")
    case True
    then have "advances (snd (get_char p)) (skip_whitespace (snd (get_char p)))"
      using "1.IH" by blast
    then have "advances p (skip_whitespace (snd (get_char p)))"
      by (rule advances_trans [OF get_char_advances])
    then show ?thesis
      using True by (subst skip_whitespace.simps) (simp add: Let_def)
  next
    case False
    then show ?thesis
      by (subst skip_whitespace.simps) (auto simp: Let_def)
  qed
qed

lemma unicode_escape_adv: "unicode_escape n p = (e, p') \<Longrightarrow> advances p p'"
  using unicode_escape_advances by (simp add: advances_def)

lemma parse_string_loop_advances: "advances p (snd (parse_string_loop p))"
proof (induction p rule: parse_string_loop.induct)
  case (1 p)
  note IH = "1.IH"
  show ?case
  proof (cases "at_eos p")
    case True
    then show ?thesis by (subst parse_string_loop.simps) simp
  next
    case False
    note not_eos = False
    define p1 where "p1 = snd (get_char p)"
    have a1: "advances p p1" by (simp add: p1_def get_char_advances)
    show ?thesis
    proof (cases "peek_char p = CHR 0x5C")
      case True
      note bs = True
      show ?thesis
      proof (cases "at_eos p1")
        case True
        then show ?thesis
          using not_eos bs a1 by (subst parse_string_loop.simps) (simp add: Let_def p1_def)
      next
        case False
        note not_eos1 = False
        define ec where "ec = peek_char p1"
        consider (simple) "ec = CHR 0x22 \<or> ec = CHR 0x5C \<or> ec = CHR ''/'' \<or> ec = CHR ''b''
              \<or> ec = CHR ''f'' \<or> ec = CHR ''n'' \<or> ec = CHR ''r'' \<or> ec = CHR ''t''"
          | (uni) "\<not> (ec = CHR 0x22 \<or> ec = CHR 0x5C \<or> ec = CHR ''/'' \<or> ec = CHR ''b''
              \<or> ec = CHR ''f'' \<or> ec = CHR ''n'' \<or> ec = CHR ''r'' \<or> ec = CHR ''t'')"
            "ec = CHR ''u''"
          | (bad) "\<not> (ec = CHR 0x22 \<or> ec = CHR 0x5C \<or> ec = CHR ''/'' \<or> ec = CHR ''b''
              \<or> ec = CHR ''f'' \<or> ec = CHR ''n'' \<or> ec = CHR ''r'' \<or> ec = CHR ''t'')"
            "ec \<noteq> CHR ''u''"
          by blast
        then show ?thesis
        proof cases
          case simple
          have "advances (snd (get_char p1)) (snd (parse_string_loop (snd (get_char p1))))"
            using IH(1) [OF not_eos refl bs p1_def not_eos1 ec_def simple] .
          then have "advances p (snd (parse_string_loop (snd (get_char p1))))"
            using a1 get_char_advances advances_trans by blast
          then show ?thesis
            using not_eos bs not_eos1 simple
            by (subst parse_string_loop.simps) (simp add: Let_def p1_def ec_def)
        next
          case uni
          obtain err p2 where u: "unicode_escape 4 (snd (get_char p1)) = (err, p2)"
            by fastforce
          have a2: "advances p p2"
            using a1 get_char_advances unicode_escape_adv [OF u] advances_trans by blast
          show ?thesis
          proof (cases "err = MU_JSON_ERR_NONE")
            case True
            then have ok: "\<not> err \<noteq> MU_JSON_ERR_NONE" by simp
            have "advances p2 (snd (parse_string_loop p2))"
              using IH(2) [OF not_eos refl bs p1_def not_eos1 ec_def uni u [symmetric] ok] .
            then have "advances p (snd (parse_string_loop p2))"
              using a2 advances_trans by blast
            then show ?thesis
              using not_eos bs not_eos1 uni u True
              by (subst parse_string_loop.simps) (simp add: Let_def p1_def ec_def)
          next
            case False
            then show ?thesis
              using not_eos bs not_eos1 uni u a2
              by (subst parse_string_loop.simps) (simp add: Let_def p1_def ec_def)
          qed
        next
          case bad
          then show ?thesis
            using not_eos bs not_eos1 a1
            by (subst parse_string_loop.simps) (simp add: Let_def p1_def ec_def)
        qed
      qed
    next
      case False
      note not_bs = False
      show ?thesis
      proof (cases "high_bit (peek_char p) \<or> (of_char (peek_char p) :: nat) < 0x20
          \<or> peek_char p = CHR 0x22")
        case True
        then show ?thesis
          using not_eos not_bs by (subst parse_string_loop.simps) (auto simp: Let_def)
      next
        case False
        then have "advances p1 (snd (parse_string_loop p1))"
          using IH(3) [OF not_eos refl not_bs] by (simp add: p1_def)
        then have "advances p (snd (parse_string_loop p1))"
          using a1 advances_trans by blast
        then show ?thesis
          using not_eos not_bs False
          by (subst parse_string_loop.simps) (simp add: Let_def p1_def)
      qed
    qed
  qed
qed

lemma skip_whitespace_str_len [simp]: "str_len (skip_whitespace p) = str_len p"
  using skip_whitespace_advances [of p] by (simp add: advances_def)

lemma skip_whitespace_str_pos: "str_pos p \<le> str_pos (skip_whitespace p)"
  using skip_whitespace_advances [of p] by (simp add: advances_def)

lemma parse_string_loop_pos:
  "parse_string_loop p = (e, p') \<Longrightarrow> str_len p' = str_len p \<and> str_pos p \<le> str_pos p'"
  using parse_string_loop_advances [of p] by (simp add: advances_def)

lemma digits_loop_pos:
  "digits_loop has p = (has', p') \<Longrightarrow> str_len p' = str_len p \<and> str_pos p \<le> str_pos p'"
proof (induction has p arbitrary: has' p' rule: digits_loop.induct)
  case (1 has p)
  show ?case
  proof (cases "\<not> at_eos p \<and> peek_char p \<ge> CHR ''0'' \<and> peek_char p \<le> CHR ''9''")
    case True
    then have "digits_loop True (snd (get_char p)) = (has', p')"
      using "1.prems" by (subst (asm) digits_loop.simps) (simp add: Let_def)
    from "1.IH" [OF _ refl _ this] True show ?thesis by simp
  next
    case False
    then show ?thesis
      using "1.prems" by (subst (asm) digits_loop.simps) (auto simp: Let_def split: if_splits)
  qed
qed

lemma match_literal_pos:
  "match_literal cs p = (e, p') \<Longrightarrow>
     str_len p' = str_len p \<and> str_pos p \<le> str_pos p'
     \<and> (e = MU_JSON_ERR_NONE \<longrightarrow> str_pos p' = str_pos p + length cs)"
proof (induction cs arbitrary: p)
  case Nil
  then show ?case by simp
next
  case (Cons c cs)
  show ?case
  proof (cases "at_eos p \<or> fst (get_char p) \<noteq> c")
    case True
    then show ?thesis
      using Cons.prems by (auto split: prod.splits if_splits simp: get_char_def)
  next
    case False
    then have "match_literal cs (snd (get_char p)) = (e, p')"
      using Cons.prems by (auto split: prod.splits)
    from Cons.IH [OF this] show ?thesis by simp
  qed
qed

lemma parse_string_pos:
  "parse_string p = (e, p') \<Longrightarrow>
     str_len p' = str_len p \<and> str_pos p \<le> str_pos p'
     \<and> (e = MU_JSON_ERR_NONE \<longrightarrow> str_pos p < str_pos p' \<and> \<not> at_eos p)"
  by (auto simp: parse_string_def Let_def init_token_fields
      split: if_splits option.splits prod.splits dest!: parse_string_loop_pos)

lemma parse_number_fraction_pos:
  "parse_number_fraction p tok = (e, p') \<Longrightarrow>
     str_len p' = str_len p \<and> str_pos p \<le> str_pos p'"
  by (auto simp: parse_number_fraction_def Let_def
      split: if_splits prod.splits dest!: digits_loop_pos)

lemma parse_number_exponent_pos:
  "parse_number_exponent p tok = (e, p') \<Longrightarrow>
     str_len p' = str_len p \<and> str_pos p \<le> str_pos p'"
  by (auto simp: parse_number_exponent_def Let_def
      split: if_splits prod.splits dest!: digits_loop_pos)

lemma digits_loop_flag:
  "digits_loop has p = (has', p') \<Longrightarrow> has' \<Longrightarrow> has \<or> str_pos p < str_pos p'"
proof (induction has p arbitrary: has' p' rule: digits_loop.induct)
  case (1 has p)
  show ?case
  proof (cases "\<not> at_eos p \<and> peek_char p \<ge> CHR ''0'' \<and> peek_char p \<le> CHR ''9''")
    case True
    then have "digits_loop True (snd (get_char p)) = (has', p')"
      using "1.prems" by (subst (asm) digits_loop.simps) (simp add: Let_def)
    from digits_loop_pos [OF this] show ?thesis by simp
  next
    case False
    then show ?thesis
      using "1.prems" by (subst (asm) digits_loop.simps) (auto simp: Let_def split: if_splits)
  qed
qed

lemma digits_loop_False_pos:
  "digits_loop False p = (has', p') \<Longrightarrow>
     str_len p' = str_len p \<and> str_pos p \<le> str_pos p' \<and> (has' \<longrightarrow> str_pos p < str_pos p')"
  using digits_loop_pos [of False p has' p'] digits_loop_flag [of False p has' p'] by auto

lemma parse_number_integer_pos:
  "parse_number_integer p = (e, p') \<Longrightarrow>
     str_len p' = str_len p \<and> str_pos p \<le> str_pos p'
     \<and> (e = MU_JSON_ERR_NONE \<longrightarrow> str_pos p < str_pos p')"
  by (auto simp: parse_number_integer_def Let_def split: if_splits prod.splits
      dest!: digits_loop_False_pos)

lemma parse_number_pos:
  "parse_number p = (e, p') \<Longrightarrow>
     str_len p' = str_len p \<and> str_pos p \<le> str_pos p'
     \<and> (e = MU_JSON_ERR_NONE \<longrightarrow> str_pos p < str_pos p' \<and> \<not> at_eos p)"
  by (auto simp: parse_number_def init_token_fields split: if_splits option.splits prod.splits
      dest!: parse_number_integer_pos parse_number_fraction_pos parse_number_exponent_pos)

lemma parse_literal_pos:
  "parse_literal p lit ty = (e, p') \<Longrightarrow> lit \<noteq> [] \<Longrightarrow>
     str_len p' = str_len p \<and> str_pos p \<le> str_pos p'
     \<and> (e = MU_JSON_ERR_NONE \<longrightarrow> str_pos p < str_pos p' \<and> \<not> at_eos p)"
  by (auto simp: parse_literal_def Let_def init_token_fields
      split: if_splits option.splits prod.splits dest!: match_literal_pos)

lemma skip_whitespace_idem: "skip_whitespace (skip_whitespace p) = skip_whitespace p"
proof (induction p rule: skip_whitespace.induct)
  case (1 p)
  show ?case
  proof (cases "\<not> at_eos p \<and> (peek_char p = CHR '' '' \<or> peek_char p = CHR 0x09
      \<or> peek_char p = CHR 0x0A \<or> peek_char p = CHR 0x0D)")
    case True
    then have "skip_whitespace p = skip_whitespace (snd (get_char p))"
      by (subst skip_whitespace.simps) (simp add: Let_def)
    then show ?thesis
      using "1.IH" True by simp
  next
    case False
    then have "skip_whitespace p = p"
      by (subst skip_whitespace.simps) (auto simp: Let_def)
    then show ?thesis by simp
  qed
qed

lemma find_and_skip_pos:
  "find_and_skip p c = (e, p') \<Longrightarrow>
     str_len p' = str_len p \<and> str_pos p \<le> str_pos p'
     \<and> (e = MU_JSON_ERR_NONE \<longrightarrow> \<not> at_eos p' \<and> skip_whitespace p' = p')"
proof -
  assume r: "find_and_skip p c = (e, p')"
  have 1: "str_pos p \<le> str_pos (skip_whitespace p)"
    by (rule skip_whitespace_str_pos)
  have 2: "Suc (str_pos (skip_whitespace p))
      \<le> str_pos (skip_whitespace (snd (get_char (skip_whitespace p))))"
    using skip_whitespace_str_pos [of "snd (get_char (skip_whitespace p))"] by simp
  show ?thesis
    using r 1 2
    by (auto simp: find_and_skip_def Let_def skip_whitespace_idem split: if_splits)
qed

subsection \<open>Elements, objects and arrays\<close>

text \<open>
  \<open>parse_object_loop\<close> and \<open>parse_array_loop\<close> are the \<^verbatim>\<open>while (true)\<close> loops of
  \<open>parse_object\<close> and \<open>parse_array\<close>, with the loop's flag (\<^verbatim>\<open>first_pair\<close>,
  \<^verbatim>\<open>first_element\<close>) as an argument. As for the string loop, the result
  \<open>MU_JSON_ERR_NONE\<close> means that the loop was left by \<^verbatim>\<open>break\<close>, any other value that
  the function returned it from inside the loop.
\<close>

function parse_element :: "parser_t \<Rightarrow> mu_json_err_t \<times> parser_t"
  and parse_object :: "parser_t \<Rightarrow> mu_json_err_t \<times> parser_t"
  and parse_object_loop :: "parser_t \<Rightarrow> bool \<Rightarrow> mu_json_err_t \<times> parser_t"
  and parse_array :: "parser_t \<Rightarrow> mu_json_err_t \<times> parser_t"
  and parse_array_loop :: "parser_t \<Rightarrow> bool \<Rightarrow> mu_json_err_t \<times> parser_t"
where
  "parse_element p =
     (let p1 = skip_whitespace p
      in if \<not> at_eos p1 then
           (let ch = peek_char p1
            in if ch = CHR 0x22 then parse_string p1
               else if is_digit ch \<or> ch = CHR ''-'' then parse_number p1
               else if ch = CHR ''t'' then parse_literal p1 ''true'' MU_JSON_TOKEN_TYPE_TRUE
               else if ch = CHR ''f'' then parse_literal p1 ''false'' MU_JSON_TOKEN_TYPE_FALSE
               else if ch = CHR ''n'' then parse_literal p1 ''null'' MU_JSON_TOKEN_TYPE_NULL
               else if ch = CHR ''{'' then parse_object p1
               else if ch = CHR ''['' then parse_array p1
               else if high_bit ch then (MU_JSON_ERR_NO_MULTIBYTE, p1)
               else (MU_JSON_ERR_BAD_FORMAT, p1))
         else (MU_JSON_ERR_NONE, p1))"
| "parse_object p =
     (if at_eos p \<or> peek_char p \<noteq> CHR ''{'' then (MU_JSON_ERR_INTERNAL, p)
      else
        (case init_token p MU_JSON_TOKEN_TYPE_OBJECT of
           None \<Rightarrow> (MU_JSON_ERR_NOT_ENOUGH_TOKENS, p)
         | Some (tok, p1) \<Rightarrow>
             (let p2 = p1\<lparr>level := level p1 + 1\<rparr>;
                  p3 = snd (get_char p2)
              in case parse_object_loop p3 True of
                   (err, p4) \<Rightarrow>
                     if err \<noteq> MU_JSON_ERR_NONE then (err, p4)
                     else if at_eos p4 then (MU_JSON_ERR_INCOMPLETE, p4)
                     else if peek_char p4 \<noteq> CHR ''}'' then (MU_JSON_ERR_INTERNAL, p4)
                     else
                       (let p5 = snd (get_char p4);
                            p6 = p5\<lparr>level := level p5 - 1\<rparr>
                        in (MU_JSON_ERR_NONE,
                            on_token p6 tok (\<lambda>t. set_token_string_length t
                              (ptr_diff (ref_char p6) (get_token_string t))))))))"
| "parse_object_loop p first_pair =
     (let p1 = skip_whitespace p
      in if at_eos p1 then (MU_JSON_ERR_NONE, p1)
         else if peek_char p1 = CHR ''}'' then (MU_JSON_ERR_NONE, p1)
         else
           (case (if \<not> first_pair then find_and_skip p1 CHR '','' else (MU_JSON_ERR_NONE, p1)) of
              (err, p2) \<Rightarrow>
                if err \<noteq> MU_JSON_ERR_NONE then (err, p2)
                else
                  (case parse_string p2 of
                     (err, p3) \<Rightarrow>
                       if err \<noteq> MU_JSON_ERR_NONE then (err, p3)
                       else
                         (case find_and_skip p3 CHR '':'' of
                            (err, p4) \<Rightarrow>
                              if err \<noteq> MU_JSON_ERR_NONE then (err, p4)
                              else
                                (case parse_element p4 of
                                   (err, p5) \<Rightarrow>
                                     if err \<noteq> MU_JSON_ERR_NONE then (err, p5)
                                     else parse_object_loop p5 False)))))"
| "parse_array p =
     (if at_eos p \<or> peek_char p \<noteq> CHR ''['' then (MU_JSON_ERR_INTERNAL, p)
      else
        (case init_token p MU_JSON_TOKEN_TYPE_ARRAY of
           None \<Rightarrow> (MU_JSON_ERR_NOT_ENOUGH_TOKENS, p)
         | Some (tok, p1) \<Rightarrow>
             (let p2 = p1\<lparr>level := level p1 + 1\<rparr>;
                  p3 = snd (get_char p2)
              in case parse_array_loop p3 True of
                   (err, p4) \<Rightarrow>
                     if err \<noteq> MU_JSON_ERR_NONE then (err, p4)
                     else if at_eos p4 then (MU_JSON_ERR_INCOMPLETE, p4)
                     else if peek_char p4 \<noteq> CHR '']'' then (MU_JSON_ERR_INTERNAL, p4)
                     else
                       (let p5 = snd (get_char p4);
                            p6 = p5\<lparr>level := level p5 - 1\<rparr>
                        in (MU_JSON_ERR_NONE,
                            on_token p6 tok (\<lambda>t. set_token_string_length t
                              (ptr_diff (ref_char p6) (get_token_string t))))))))"
| "parse_array_loop p first_element =
     (let p1 = skip_whitespace p
      in if at_eos p1 then (MU_JSON_ERR_NONE, p1)
         else if peek_char p1 = CHR '']'' then (MU_JSON_ERR_NONE, p1)
         else
           (case (if \<not> first_element then find_and_skip p1 CHR '','' else (MU_JSON_ERR_NONE, p1)) of
              (err, p2) \<Rightarrow>
                if err \<noteq> MU_JSON_ERR_NONE then (err, p2)
                else
                  (case parse_element p2 of
                     (err, p3) \<Rightarrow>
                       if err \<noteq> MU_JSON_ERR_NONE then (err, p3)
                       else parse_array_loop p3 False)))"
  by pat_completeness auto

lemma parser_pos_dom:
  "parse_element_parse_object_parse_object_loop_parse_array_parse_array_loop_dom (Inl (Inl p1)) \<Longrightarrow>
     (\<forall>e p'. parse_element p1 = (e, p') \<longrightarrow>
        str_len p' = str_len p1 \<and> str_pos p1 \<le> str_pos p'
        \<and> (e = MU_JSON_ERR_NONE \<and> \<not> at_eos (skip_whitespace p1)
             \<longrightarrow> str_pos (skip_whitespace p1) < str_pos p'))"
  "parse_element_parse_object_parse_object_loop_parse_array_parse_array_loop_dom (Inl (Inr p2)) \<Longrightarrow>
     (\<forall>e p'. parse_object p2 = (e, p') \<longrightarrow>
        str_len p' = str_len p2 \<and> str_pos p2 \<le> str_pos p'
        \<and> (e = MU_JSON_ERR_NONE \<longrightarrow> str_pos p2 < str_pos p'))"
  "parse_element_parse_object_parse_object_loop_parse_array_parse_array_loop_dom (Inr (Inl (p3, b3))) \<Longrightarrow>
     (\<forall>e p'. parse_object_loop p3 b3 = (e, p') \<longrightarrow>
        str_len p' = str_len p3 \<and> str_pos p3 \<le> str_pos p')"
  "parse_element_parse_object_parse_object_loop_parse_array_parse_array_loop_dom (Inr (Inr (Inl p4))) \<Longrightarrow>
     (\<forall>e p'. parse_array p4 = (e, p') \<longrightarrow>
        str_len p' = str_len p4 \<and> str_pos p4 \<le> str_pos p'
        \<and> (e = MU_JSON_ERR_NONE \<longrightarrow> str_pos p4 < str_pos p'))"
  "parse_element_parse_object_parse_object_loop_parse_array_parse_array_loop_dom (Inr (Inr (Inr (p5, b5)))) \<Longrightarrow>
     (\<forall>e p'. parse_array_loop p5 b5 = (e, p') \<longrightarrow>
        str_len p' = str_len p5 \<and> str_pos p5 \<le> str_pos p')"
proof (induct rule: parse_element_parse_object_parse_object_loop_parse_array_parse_array_loop.pinduct)
  case (1 p)
  define q where "q = skip_whitespace p"
  have s: "str_pos p \<le> str_pos q" "str_len q = str_len p"
    by (simp_all add: q_def skip_whitespace_str_pos)
  have ih_obj: "str_len p' = str_len q \<and> str_pos q \<le> str_pos p'
      \<and> (e = MU_JSON_ERR_NONE \<longrightarrow> str_pos q < str_pos p')"
    if "\<not> at_eos q" "peek_char q = CHR ''{''" "parse_object q = (e, p')" for e p'
    using 1(2) [OF q_def that(1) refl] that(2,3) by (simp add: is_digit_def)
  have ih_arr: "str_len p' = str_len q \<and> str_pos q \<le> str_pos p'
      \<and> (e = MU_JSON_ERR_NONE \<longrightarrow> str_pos q < str_pos p')"
    if "\<not> at_eos q" "peek_char q = CHR ''[''" "parse_array q = (e, p')" for e p'
    using 1(3) [OF q_def that(1) refl] that(2,3) by (simp add: is_digit_def)
  show ?case
  proof (intro allI impI)
    fix e p'
    assume r: "parse_element p = (e, p')"
    show "str_len p' = str_len p \<and> str_pos p \<le> str_pos p'
        \<and> (e = MU_JSON_ERR_NONE \<and> \<not> at_eos (skip_whitespace p)
             \<longrightarrow> str_pos (skip_whitespace p) < str_pos p')"
    proof (cases "at_eos q")
      case True
      then show ?thesis
        using r s by (simp add: parse_element.psimps [OF 1(1)] q_def [symmetric])
    next
      case False
      have "str_len p' = str_len q \<and> str_pos q \<le> str_pos p'
          \<and> (e = MU_JSON_ERR_NONE \<longrightarrow> str_pos q < str_pos p')"
        using r False ih_obj ih_arr
        by (auto simp: parse_element.psimps [OF 1(1)] q_def [symmetric] Let_def
            split: if_splits
            dest!: parse_string_pos parse_number_pos parse_literal_pos)
      then show ?thesis
        using s by (simp add: q_def)
    qed
  qed
next
  case (2 p)
  show ?case
  proof (intro allI impI)
    fix e p'
    assume r: "parse_object p = (e, p')"
    show "str_len p' = str_len p \<and> str_pos p \<le> str_pos p'
        \<and> (e = MU_JSON_ERR_NONE \<longrightarrow> str_pos p < str_pos p')"
    proof (cases "at_eos p \<or> peek_char p \<noteq> CHR ''{''")
      case True
      then show ?thesis
        using r by (auto simp: parse_object.psimps [OF 2(1)])
    next
      case guard: False
      show ?thesis
      proof (cases "init_token p MU_JSON_TOKEN_TYPE_OBJECT")
        case None
        then show ?thesis
          using r guard by (auto simp: parse_object.psimps [OF 2(1)])
      next
        case (Some a)
        obtain tok q1 where a: "a = (tok, q1)" by (cases a)
        define q3 where "q3 = snd (get_char (q1\<lparr>level := level q1 + 1\<rparr>))"
        obtain e4 q4 where l: "parse_object_loop q3 True = (e4, q4)" by fastforce
        have ih: "str_len q4 = str_len q3 \<and> str_pos q3 \<le> str_pos q4"
          using 2(2) [OF guard Some a [symmetric] refl q3_def] l by simp
        have q3: "str_len q3 = str_len p" "str_pos q3 = Suc (str_pos p)"
          using init_token_fields [OF Some [unfolded a]] by (simp_all add: q3_def)
        show ?thesis
          using r guard Some a l ih q3
          by (auto simp: parse_object.psimps [OF 2(1)] Let_def q3_def [symmetric]
              split: if_splits)
      qed
    qed
  qed
next
  case (3 p first_pair)
  define q where "q = skip_whitespace p"
  have s: "str_pos p \<le> str_pos q" "str_len q = str_len p"
    by (simp_all add: q_def skip_whitespace_str_pos)
  show ?case
  proof (intro allI impI)
    fix e p'
    assume r: "parse_object_loop p first_pair = (e, p')"
    show "str_len p' = str_len p \<and> str_pos p \<le> str_pos p'"
    proof (cases "at_eos q \<or> peek_char q = CHR ''}''")
      case True
      then show ?thesis
        using r s
        by (auto simp: parse_object_loop.psimps [OF 3(1)] q_def [symmetric] split: if_splits)
    next
      case False
      then have g1: "\<not> at_eos q" and g2: "peek_char q \<noteq> CHR ''}''" by simp_all
      obtain e2 q2 where r2:
        "(if \<not> first_pair then find_and_skip q CHR '','' else (MU_JSON_ERR_NONE, q)) = (e2, q2)"
        by fastforce
      obtain e3 q3 where r3: "parse_string q2 = (e3, q3)" by fastforce
      obtain e4 q4 where r4: "find_and_skip q3 CHR '':'' = (e4, q4)" by fastforce
      obtain e5 q5 where r5: "parse_element q4 = (e5, q5)" by fastforce
      obtain e6 q6 where r6: "parse_object_loop q5 False = (e6, q6)" by fastforce
      have a2: "str_len q2 = str_len q \<and> str_pos q \<le> str_pos q2"
        using r2 find_and_skip_pos [of q "CHR '',''" e2 q2] by (auto split: if_splits)
      have a3: "str_len q3 = str_len q2 \<and> str_pos q2 \<le> str_pos q3"
        using parse_string_pos [OF r3] by simp
      have a4: "str_len q4 = str_len q3 \<and> str_pos q3 \<le> str_pos q4"
        using find_and_skip_pos [OF r4] by simp
      have a5: "str_len q5 = str_len q4 \<and> str_pos q4 \<le> str_pos q5"
        if "e2 = MU_JSON_ERR_NONE" "e3 = MU_JSON_ERR_NONE" "e4 = MU_JSON_ERR_NONE"
        using 3(2) [OF q_def g1 g2 r2 [symmetric] _ r3 [symmetric] _ r4 [symmetric]] that r5
        by simp
      have a6: "str_len q6 = str_len q5 \<and> str_pos q5 \<le> str_pos q6"
        if "e2 = MU_JSON_ERR_NONE" "e3 = MU_JSON_ERR_NONE" "e4 = MU_JSON_ERR_NONE"
          "e5 = MU_JSON_ERR_NONE"
        using 3(3) [OF q_def g1 g2 r2 [symmetric] _ r3 [symmetric] _ r4 [symmetric] _
            r5 [symmetric]] that r6
        by simp
      show ?thesis
        using r g1 g2 r2 r3 r4 r5 r6 a2 a3 a4 a5 a6 s
        by (auto simp: parse_object_loop.psimps [OF 3(1)] Let_def q_def [symmetric]
            split: if_splits)
    qed
  qed
next
  case (4 p)
  show ?case
  proof (intro allI impI)
    fix e p'
    assume r: "parse_array p = (e, p')"
    show "str_len p' = str_len p \<and> str_pos p \<le> str_pos p'
        \<and> (e = MU_JSON_ERR_NONE \<longrightarrow> str_pos p < str_pos p')"
    proof (cases "at_eos p \<or> peek_char p \<noteq> CHR ''[''")
      case True
      then show ?thesis
        using r by (auto simp: parse_array.psimps [OF 4(1)])
    next
      case guard: False
      show ?thesis
      proof (cases "init_token p MU_JSON_TOKEN_TYPE_ARRAY")
        case None
        then show ?thesis
          using r guard by (auto simp: parse_array.psimps [OF 4(1)])
      next
        case (Some a)
        obtain tok q1 where a: "a = (tok, q1)" by (cases a)
        define q3 where "q3 = snd (get_char (q1\<lparr>level := level q1 + 1\<rparr>))"
        obtain e4 q4 where l: "parse_array_loop q3 True = (e4, q4)" by fastforce
        have ih: "str_len q4 = str_len q3 \<and> str_pos q3 \<le> str_pos q4"
          using 4(2) [OF guard Some a [symmetric] refl q3_def] l by simp
        have q3: "str_len q3 = str_len p" "str_pos q3 = Suc (str_pos p)"
          using init_token_fields [OF Some [unfolded a]] by (simp_all add: q3_def)
        show ?thesis
          using r guard Some a l ih q3
          by (auto simp: parse_array.psimps [OF 4(1)] Let_def q3_def [symmetric]
              split: if_splits)
      qed
    qed
  qed
next
  case (5 p first_element)
  define q where "q = skip_whitespace p"
  have s: "str_pos p \<le> str_pos q" "str_len q = str_len p"
    by (simp_all add: q_def skip_whitespace_str_pos)
  show ?case
  proof (intro allI impI)
    fix e p'
    assume r: "parse_array_loop p first_element = (e, p')"
    show "str_len p' = str_len p \<and> str_pos p \<le> str_pos p'"
    proof (cases "at_eos q \<or> peek_char q = CHR '']''")
      case True
      then show ?thesis
        using r s
        by (auto simp: parse_array_loop.psimps [OF 5(1)] q_def [symmetric] split: if_splits)
    next
      case False
      then have g1: "\<not> at_eos q" and g2: "peek_char q \<noteq> CHR '']''" by simp_all
      obtain e2 q2 where r2:
        "(if \<not> first_element then find_and_skip q CHR '','' else (MU_JSON_ERR_NONE, q))
           = (e2, q2)"
        by fastforce
      obtain e3 q3 where r3: "parse_element q2 = (e3, q3)" by fastforce
      obtain e4 q4 where r4: "parse_array_loop q3 False = (e4, q4)" by fastforce
      have a2: "str_len q2 = str_len q \<and> str_pos q \<le> str_pos q2"
        using r2 find_and_skip_pos [of q "CHR '',''" e2 q2] by (auto split: if_splits)
      have a3: "str_len q3 = str_len q2 \<and> str_pos q2 \<le> str_pos q3"
        if "e2 = MU_JSON_ERR_NONE"
        using 5(2) [OF q_def g1 g2 r2 [symmetric]] that r3 by simp
      have a4: "str_len q4 = str_len q3 \<and> str_pos q3 \<le> str_pos q4"
        if "e2 = MU_JSON_ERR_NONE" "e3 = MU_JSON_ERR_NONE"
        using 5(3) [OF q_def g1 g2 r2 [symmetric] _ r3 [symmetric]] that r4 by simp
      show ?thesis
        using r g1 g2 r2 r3 r4 a2 a3 a4 s
        by (auto simp: parse_array_loop.psimps [OF 5(1)] Let_def q_def [symmetric]
            split: if_splits)
    qed
  qed
qed

lemma remaining_le:
  "str_len q = str_len p \<Longrightarrow> str_pos p \<le> str_pos q \<Longrightarrow> remaining q \<le> remaining p"
  by (simp add: remaining_def)

lemma remaining_less:
  "str_len q = str_len p \<Longrightarrow> str_pos p < str_pos q \<Longrightarrow> \<not> at_eos p
     \<Longrightarrow> remaining q < remaining p"
  by (simp add: remaining_def at_eos_def)

text \<open>
  The measure of a call: the bytes still to read, then a rank that orders the calls that
  are made without reading anything (a loop calls \<open>parse_element\<close>, which calls
  \<open>parse_object\<close> or \<open>parse_array\<close>).
\<close>

definition call_measure ::
  "(parser_t + parser_t) + (parser_t \<times> bool) + parser_t + (parser_t \<times> bool) \<Rightarrow> nat \<times> nat"
  where
  "call_measure c =
     (case c of
        Inl (Inl p) \<Rightarrow> (remaining p, 1)
      | Inl (Inr p) \<Rightarrow> (remaining p, 0)
      | Inr (Inl (p, b)) \<Rightarrow> (remaining p, 2)
      | Inr (Inr (Inl p)) \<Rightarrow> (remaining p, 0)
      | Inr (Inr (Inr (p, b))) \<Rightarrow> (remaining p, 2))"

termination parse_element
proof (relation "inv_image (less_than <*lex*> less_than) call_measure", goal_cases)
  case 1
  show ?case by (intro wf_inv_image wf_lex_prod wf_less_than)
next
  case (2 p q ch)
  have "remaining q \<le> remaining p"
    using 2(1) by (simp add: remaining_le skip_whitespace_str_pos)
  then show ?case by (auto simp: call_measure_def)
next
  case (3 p q ch)
  have "remaining q \<le> remaining p"
    using 3(1) by (simp add: remaining_le skip_whitespace_str_pos)
  then show ?case by (auto simp: call_measure_def)
next
  case (4 p a tok q1 q2 q3)
  have "remaining q3 < remaining p"
    using 4 init_token_fields [of p MU_JSON_TOKEN_TYPE_OBJECT tok q1]
    by (intro remaining_less) auto
  then show ?case by (simp add: call_measure_def)
next
  case (5 p first_pair q e2 q2 e3 q3 e4 q4)
  have a1: "str_len q = str_len p \<and> str_pos p \<le> str_pos q"
    using 5(1) by (simp add: skip_whitespace_str_pos)
  have a2: "str_len q2 = str_len q \<and> str_pos q \<le> str_pos q2"
    using 5(4) find_and_skip_pos [of q "CHR '',''" e2 q2] by (auto split: if_splits)
  have a3: "str_len q3 = str_len q2 \<and> str_pos q2 < str_pos q3"
    using 5(6,7) parse_string_pos [of q2 e3 q3] by simp
  have a4: "str_len q4 = str_len q3 \<and> str_pos q3 \<le> str_pos q4"
    using 5(8) find_and_skip_pos [of q3 "CHR '':''" e4 q4] by simp
  have "remaining q4 < remaining q"
    using a2 a3 a4 5(2) by (intro remaining_less) auto
  moreover have "remaining q \<le> remaining p"
    using a1 by (simp add: remaining_le)
  ultimately show ?case by (simp add: call_measure_def)
next
  case (6 p first_pair q e2 q2 e3 q3 e4 q4 e5 q5)
  have a1: "str_len q = str_len p \<and> str_pos p \<le> str_pos q"
    using 6(1) by (simp add: skip_whitespace_str_pos)
  have a2: "str_len q2 = str_len q \<and> str_pos q \<le> str_pos q2"
    using 6(4) find_and_skip_pos [of q "CHR '',''" e2 q2] by (auto split: if_splits)
  have a3: "str_len q3 = str_len q2 \<and> str_pos q2 < str_pos q3"
    using 6(6,7) parse_string_pos [of q2 e3 q3] by simp
  have a4: "str_len q4 = str_len q3 \<and> str_pos q3 \<le> str_pos q4"
    using 6(8) find_and_skip_pos [of q3 "CHR '':''" e4 q4] by simp
  have a5: "str_len q5 = str_len q4 \<and> str_pos q4 \<le> str_pos q5"
    using parser_pos_dom(1) [OF 6(12)] 6(10) [symmetric] by blast
  have "remaining q5 < remaining q"
    using a2 a3 a4 a5 6(2) by (intro remaining_less) auto
  moreover have "remaining q \<le> remaining p"
    using a1 by (simp add: remaining_le)
  ultimately show ?case by (simp add: call_measure_def)
next
  case (7 p a tok q1 q2 q3)
  have "remaining q3 < remaining p"
    using 7 init_token_fields [of p MU_JSON_TOKEN_TYPE_ARRAY tok q1]
    by (intro remaining_less) auto
  then show ?case by (simp add: call_measure_def)
next
  case (8 p first_element q e2 q2)
  have a1: "str_len q = str_len p \<and> str_pos p \<le> str_pos q"
    using 8(1) by (simp add: skip_whitespace_str_pos)
  have a2: "str_len q2 = str_len q \<and> str_pos q \<le> str_pos q2"
    using 8(4) find_and_skip_pos [of q "CHR '',''" e2 q2] by (auto split: if_splits)
  have "remaining q2 \<le> remaining p"
    using a1 a2 by (intro remaining_le) auto
  then show ?case by (auto simp: call_measure_def)
next
  case (9 p first_element q e2 q2 e3 q3)
  have a1: "str_len q = str_len p \<and> str_pos p \<le> str_pos q"
    using 9(1) by (simp add: skip_whitespace_str_pos)
  have a2: "str_len q2 = str_len q \<and> str_pos q \<le> str_pos q2"
    using 9(4) find_and_skip_pos [of q "CHR '',''" e2 q2] by (auto split: if_splits)
  have ws: "\<not> at_eos q2 \<and> skip_whitespace q2 = q2"
    using 9(1,2,4,5) find_and_skip_pos [of q "CHR '',''" e2 q2]
    by (auto simp: skip_whitespace_idem split: if_splits)
  have a3: "str_len q3 = str_len q2 \<and> str_pos q2 < str_pos q3"
    using parser_pos_dom(1) [OF 9(8)] 9(6) [symmetric] 9(7) ws by auto
  have "remaining q3 < remaining q2"
    using a3 ws by (intro remaining_less) auto
  moreover have "remaining q2 \<le> remaining p"
    using a1 a2 by (intro remaining_le) auto
  ultimately show ?case by (simp add: call_measure_def)
qed

declare parse_element.simps [simp del] parse_object.simps [simp del]
  parse_object_loop.simps [simp del] parse_array.simps [simp del]
  parse_array_loop.simps [simp del]

subsection \<open>The entry points\<close>

text \<open>
  \<^verbatim>\<open>memset(tokens, 0, sizeof(mu_json_token_t) * max_tokens)\<close>. The caller owes the parser
  an array of at least \<open>max_tokens\<close> tokens. Where the array is shorter, or \<open>max_tokens\<close>
  is negative (converted to a huge \<^verbatim>\<open>size_t\<close>), the C code writes beyond the array and
  the call has no defined result: that is \<open>None\<close>.
\<close>

definition memset_tokens :: "mu_json_token_t list \<Rightarrow> int \<Rightarrow> mu_json_token_t list option" where
  "memset_tokens tokens n =
     (if 0 \<le> n \<and> n \<le> int (length tokens)
      then Some (replicate (nat n) zero_token @ drop (nat n) tokens)
      else None)"

definition parser_reset :: "parser_t \<Rightarrow> parser_t option" where
  "parser_reset p =
     (case memset_tokens (token_store p) (max_tokens p) of
        None \<Rightarrow> None
      | Some tokens \<Rightarrow>
          Some (p\<lparr>token_store := tokens, str_pos := 0, token_count := 0, level := 0\<rparr>))"

text \<open>
  \<open>parse_json\<close>. A null pointer argument is \<open>None\<close>. The result is the returned \<^verbatim>\<open>int\<close>
  together with the caller's token array as the call leaves it; the result \<open>None\<close> is
  that of a call whose \<^verbatim>\<open>memset\<close> ran out of the array.
\<close>

definition parse_json ::
  "char list option \<Rightarrow> int \<Rightarrow> mu_json_token_t list option \<Rightarrow> int
     \<Rightarrow> (int \<times> mu_json_token_t list option) option" where
  "parse_json s s_len token_store0 max_tokens0 =
     (case s of
        None \<Rightarrow> Some (err_value MU_JSON_ERR_BAD_ARGUMENT, token_store0)
      | Some s' \<Rightarrow>
          (case token_store0 of
             None \<Rightarrow> Some (err_value MU_JSON_ERR_BAD_ARGUMENT, token_store0)
           | Some tokens \<Rightarrow>
               if s_len = 0 then Some (err_value MU_JSON_ERR_BAD_ARGUMENT, token_store0)
               else if max_tokens0 = 0
               then Some (err_value MU_JSON_ERR_BAD_ARGUMENT, token_store0)
               else
                 (case parser_reset
                         \<lparr>str = s', str_len = s_len, str_pos = 0, token_store = tokens,
                          max_tokens = max_tokens0, token_count = 0, level = 0\<rparr> of
                    None \<Rightarrow> None
                  | Some p \<Rightarrow>
                      (case parse_element p of
                         (err, p1) \<Rightarrow>
                           if err \<noteq> MU_JSON_ERR_NONE
                           then Some (err_value err, Some (token_store p1))
                           else if token_count p1 = 0
                           then Some (err_value MU_JSON_ERR_NO_ENTITIES, Some (token_store p1))
                           else
                             (let p2 = skip_whitespace p1
                              in if \<not> at_eos p2
                                 then Some (err_value MU_JSON_ERR_STRAY_INPUT,
                                            Some (token_store p2))
                                 else
                                   Some (int (token_count p2),
                                         Some (token_store
                                                (on_token p2 (token_count p2 - 1)
                                                   (\<lambda>t. set_token_is_last t True)))))))))"

text \<open>
  \<^verbatim>\<open>strlen\<close>: the number of bytes before the first NUL. \<open>mu_json_parse_str\<close> calls it on
  its argument before \<open>parse_json\<close> looks at the pointer, so its argument is a string, never
  a null pointer.
\<close>

definition strlen :: "char list \<Rightarrow> nat" where
  "strlen s = length (takeWhile (\<lambda>c. c \<noteq> CHR 0x00) s)"

definition mu_json_parse_str ::
  "char list \<Rightarrow> mu_json_token_t list option \<Rightarrow> int
     \<Rightarrow> (int \<times> mu_json_token_t list option) option" where
  "mu_json_parse_str s token_store0 max_tokens0 =
     parse_json (Some s) (int (strlen s)) token_store0 max_tokens0"

definition mu_json_parse_buffer ::
  "char list option \<Rightarrow> int \<Rightarrow> mu_json_token_t list option \<Rightarrow> int
     \<Rightarrow> (int \<times> mu_json_token_t list option) option" where
  "mu_json_parse_buffer input input_len token_store0 max_tokens0 =
     parse_json input input_len token_store0 max_tokens0"

subsection \<open>Navigating the token array\<close>

text \<open>
  A \<^verbatim>\<open>mu_json_token_t *\<close> handed to the navigation functions is null or points at an
  index of the token array (an \<open>int\<close>: \<^verbatim>\<open>&token[-1]\<close> of the first element is index
  \<open>-1\<close>). The functions read through the pointers they are given and compute; a read
  outside the array has no defined result in C, and the functions below return \<open>None\<close>
  for it. \<open>Some\<close> carries the pointer the C function returns.
\<close>

datatype token_ptr = Null | Tok int


definition token_is_null :: "token_ptr \<Rightarrow> bool" where
  "token_is_null token = (token = Null)"








section \<open>Properties of the emitter\<close>

subsection \<open>What each helper does to the state\<close>

lemma written_emit_char: "written (emit_char j c) = written j @ [c]"
  by (simp add: emit_char_def)

lemma levels_emit_char: "levels (emit_char j c) = levels j"
  by (simp add: emit_char_def)

lemma curr_level_emit_char: "curr_level (emit_char j c) = curr_level j"
  by (simp add: emit_char_def)

lemma max_level_emit_char: "max_level (emit_char j c) = max_level j"
  by (simp add: emit_char_def)

lemmas emit_char_fields =
  written_emit_char levels_emit_char curr_level_emit_char max_level_emit_char

lemma written_emit_string:
  "written (emit_string j s) = written j @ takeWhile (\<lambda>c. c \<noteq> CHR 0x00) s"
  by (induction s arbitrary: j) (simp_all add: written_emit_char)

lemma levels_emit_string: "levels (emit_string j s) = levels j"
  by (induction s arbitrary: j) (simp_all add: levels_emit_char)

lemma curr_level_emit_string: "curr_level (emit_string j s) = curr_level j"
  by (induction s arbitrary: j) (simp_all add: curr_level_emit_char)

lemma max_level_emit_string: "max_level (emit_string j s) = max_level j"
  by (induction s arbitrary: j) (simp_all add: max_level_emit_char)

lemmas emit_string_fields =
  written_emit_string levels_emit_string curr_level_emit_string max_level_emit_string

lemma written_push_level: "written (push_level j b) = written j"
  by (simp add: push_level_def Let_def)

lemma written_pop_level: "written (pop_level j) = written j"
  by (simp add: pop_level_def)

lemma prefix_emit_quoted_byte: "prefix (written j) (written (emit_quoted_byte j b))"
  by (simp add: emit_quoted_byte_def Let_def written_emit_string written_emit_char)

lemma prefix_emit_quoted_string: "prefix (written j) (written (emit_quoted_string j s))"
proof (induction s arbitrary: j)
  case Nil
  show ?case by simp
next
  case (Cons c s)
  show ?case
  proof (cases "c = CHR 0x00")
    case True
    then show ?thesis by simp
  next
    case False
    have "prefix (written j) (written (emit_quoted_byte j c))"
      by (rule prefix_emit_quoted_byte)
    also have "prefix \<dots> (written (emit_quoted_string (emit_quoted_byte j c) s))"
      by (rule Cons.IH)
    finally show ?thesis using False by simp
  qed
qed

lemma prefix_emit_quoted_bytes: "prefix (written j) (written (emit_quoted_bytes j bs))"
proof (induction bs arbitrary: j)
  case Nil
  show ?case by simp
next
  case (Cons b bs)
  have "prefix (written j) (written (emit_quoted_byte j b))"
    by (rule prefix_emit_quoted_byte)
  also have "prefix \<dots> (written (emit_quoted_bytes (emit_quoted_byte j b) bs))"
    by (rule Cons.IH)
  finally show ?case by simp
qed

lemma written_foldl_emit_char: "written (foldl emit_char j cs) = written j @ cs"
  by (induction cs arbitrary: j) (simp_all add: written_emit_char)

lemma odd_unat_word: "odd (unat c) = odd c" for c :: size_t
  by (simp flip: bit_0 add: bit_unsigned_iff)

lemma word_and_one_odd: "(c AND 1 \<noteq> 0) = odd (unat c)" for c :: size_t
  using even_word_iff [of c] by (simp add: even_word_def odd_unat_word)

subsection \<open>The punctuation rule\<close>

text \<open>
  \<open>punctuation f\<close> is what the rule prescribes for a frame \<open>f\<close>: nothing for the first
  item; in an object a colon after an odd number of items and a comma after an even
  number; elsewhere a comma.
\<close>

definition punctuation :: "mu_jems_level_t \<Rightarrow> char list" where
  "punctuation f =
     (if item_count f = 0 then []
      else if is_object f then (if odd (unat (item_count f)) then '':'' else '','')
      else '','')"

lemma commify_written:
  "written (commify j) = written j @ punctuation (levels j ! unat (curr_level j))"
  by (simp add: commify_def Let_def level_ref_def punctuation_def emit_char_fields
      word_and_one_odd word_greater_zero_iff)

lemma commify_levels:
  "levels (commify j) =
     (levels j)[unat (curr_level j) :=
        (levels j ! unat (curr_level j))
          \<lparr>item_count := item_count (levels j ! unat (curr_level j)) + 1\<rparr>]"
  by (simp add: commify_def Let_def level_ref_def emit_char_fields)

lemma commify_curr_level: "curr_level (commify j) = curr_level j"
  by (simp add: commify_def Let_def emit_char_fields)

lemma commify_max_level: "max_level (commify j) = max_level j"
  by (simp add: commify_def Let_def emit_char_fields)

lemma commify_prefix: "prefix (written j) (written (commify j))"
  by (simp add: commify_written)


text \<open>
  The rule at a concrete state: depth 1 of a two-frame stack, in an object frame that has
  seen three items. The next emission is preceded by a colon and the count becomes four.
\<close>

definition frame_example :: mu_jems_t where
  \<open>frame_example =
     \<lparr>levels = [\<lparr>item_count = 1, is_object = False\<rparr>, \<lparr>item_count = 3, is_object = True\<rparr>],
      max_level = 2, curr_level = 1, written = ''[{"a":1,"b"''\<rparr>\<close>


subsection \<open>Closing a container\<close>

text \<open>
  C10. \<open>mu_jems_object_close\<close> and \<open>mu_jems_array_close\<close> hand the writer exactly one
  byte, the closing brace or bracket, with no punctuation before it; they leave the whole
  frame array (so every \<open>item_count\<close>) and \<open>max_level\<close> as they were; and they lower
  \<open>curr_level\<close> by one, except that at level 0 the level stays 0 while the closing byte is
  written all the same.
\<close>

theorem close_effect:
  "written (mu_jems_object_close j) = written j @ ''}''
   \<and> written (mu_jems_array_close j) = written j @ '']''
   \<and> levels (mu_jems_object_close j) = levels j
   \<and> levels (mu_jems_array_close j) = levels j
   \<and> max_level (mu_jems_object_close j) = max_level j
   \<and> max_level (mu_jems_array_close j) = max_level j
   \<and> curr_level (mu_jems_object_close j) = (if curr_level j = 0 then 0 else curr_level j - 1)
   \<and> curr_level (mu_jems_array_close j) = (if curr_level j = 0 then 0 else curr_level j - 1)
   \<and> unat (curr_level (mu_jems_object_close j)) = unat (curr_level j) - 1
   \<and> unat (curr_level (mu_jems_array_close j)) = unat (curr_level j) - 1"
proof -
  have dec: "unat (curr_level j - 1) = unat (curr_level j) - 1" if "curr_level j \<noteq> 0"
    using that by (simp add: unat_minus_one)
  show ?thesis
    using dec
    by (simp add: mu_jems_object_close_def mu_jems_array_close_def pop_level_def
        emit_char_def word_greater_zero_iff)
qed

text \<open>Closing at depth 1 returns to depth 0; closing again at depth 0 stays there.\<close>

theorem close_effect_witness:
  \<open>written (mu_jems_object_close frame_example) = ''[{"a":1,"b"}''
   \<and> curr_level (mu_jems_object_close frame_example) = 0
   \<and> levels (mu_jems_object_close frame_example) = levels frame_example
   \<and> written (mu_jems_array_close (mu_jems_object_close frame_example)) = ''[{"a":1,"b"}]''
   \<and> curr_level (mu_jems_array_close (mu_jems_object_close frame_example)) = 0\<close>
  using close_effect [of frame_example] close_effect [of "mu_jems_object_close frame_example"]
  by (simp add: frame_example_def)


subsection \<open>The end-to-end scenario\<close>

text \<open>The \<^verbatim>\<open>double\<close> 3.5 is \<open>7 * 2 ^ -1\<close>.\<close>

definition double_3_5 :: double where
  "double_3_5 = \<lparr>mantissa = 7, exponent = - 1\<rparr>"

text \<open>
  The call sequence \<^verbatim>\<open>object_open; key_integer("x",1); key_array_open("y"); integer(2);
  number(3.5); array_close; object_close\<close>, from a given emitter state.
\<close>

definition emit_scenario :: "mu_jems_t \<Rightarrow> mu_jems_t option" where
  "emit_scenario j0 =
     (let j1 = mu_jems_object_open j0;
          j2 = mu_jems_key_integer j1 ''x'' 1;
          j3 = mu_jems_key_array_open j2 ''y'';
          j4 = mu_jems_integer j3 2
      in case mu_jems_number j4 double_3_5 of
           None \<Rightarrow> None
         | Some j5 \<Rightarrow> Some (mu_jems_object_close (mu_jems_array_close j5)))"

lemma dec_digits_lt10: "n < 10 \<Longrightarrow> dec_digits n = [digit_char n]"
  by (subst dec_digits.simps) simp

lemma dec_digits_ge10:
  "n \<ge> 10 \<Longrightarrow> dec_digits n = dec_digits (n div 10) @ [digit_char (n mod 10)]"
  by (subst dec_digits.simps) simp

lemma scaled_round_3_5: "scaled_round double_3_5 = 3500000"
  by (simp add: scaled_round_def double_3_5_def Let_def)

lemma snprintf_lf_3_5: "snprintf_lf double_3_5 = ''3.500000''"
  by (simp add: snprintf_lf_def scaled_round_3_5 dec_digits_lt10 dec_digits_ge10
      digit_char_def pad6_def)
    (simp add: double_3_5_def)

lemma double_to_int64_3_5: "double_to_int64 double_3_5 = Some 3"
  by (simp add: double_to_int64_def double_3_5_def)

lemma int64_eq_double_3_5: "\<not> int64_eq_double 3 double_3_5"
  by (simp add: int64_eq_double_def double_3_5_def)

lemma mu_jems_number_3_5:
  "mu_jems_number j double_3_5 = Some (emit_string (commify j) ''3.500000'')"
  by (simp add: mu_jems_number_def snprintf_lf_3_5 double_to_int64_3_5 int64_eq_double_3_5)

lemma frame_overwrite:
  "f\<lparr>item_count := n, is_object := b\<rparr> = \<lparr>item_count = n, is_object = b\<rparr>"
  by (cases f) simp

lemma push_level_room:
  assumes "curr_level j < max_level j - 1"
  shows "push_level j b =
           j\<lparr>curr_level := curr_level j + 1,
             levels := (levels j)[unat (curr_level j + 1) := \<lparr>item_count = 0, is_object = b\<rparr>]\<rparr>"
proof (cases "unat (curr_level j + 1) < length (levels j)")
  case True
  then show ?thesis
    using assms by (simp add: push_level_def Let_def level_ref_def frame_overwrite)
next
  case False
  then show ?thesis
    using assms by (simp add: push_level_def Let_def level_ref_def list_update_beyond)
qed

lemma room_below_three:
  fixes m :: size_t
  assumes "3 \<le> unat m"
  shows "0 < m - 1" and "1 < m - 1"
proof -
  have "m \<noteq> 0" using assms by auto
  then have "unat (m - 1) = unat m - 1" by (simp add: unat_minus_one)
  then have "2 \<le> unat (m - 1)" using assms by simp
  then show "0 < m - 1" and "1 < m - 1"
    by (simp_all add: word_less_nat_alt)
qed

lemma snprintf_d64_small: "snprintf_d64 1 = ''1''" "snprintf_d64 2 = ''2''"
  by (simp_all add: snprintf_d64_def dec_digits_lt10 digit_char_def)

text \<open>
  C9, as the code has it. From a freshly initialised emitter whose frame array holds at
  least three frames (the scenario nests two deep), the call sequence delivers exactly
  the bytes \<^verbatim>\<open>{"x":1,"y":[2,3.500000]}\<close>: \<open>mu_jems_number\<close> prints a value that is not
  an integer with \<^verbatim>\<open>"%lf"\<close>, that is with six digits after the point.
\<close>

theorem scenario_output:
  assumes "3 \<le> unat max_lvl" and "unat max_lvl \<le> length lvls"
  shows \<open>map_option written (emit_scenario (mu_jems_init lvls max_lvl))
           = Some ''{"x":1,"y":[2,3.500000]}''\<close>
proof -
  obtain a b c rest where l: "lvls = a # b # c # rest"
    using assms by (cases lvls; cases "tl lvls"; cases "tl (tl lvls)") auto
  show ?thesis
    using room_below_three [OF assms(1)]
    by (simp add: emit_scenario_def mu_jems_number_3_5 Let_def l mu_jems_init_def
        mu_jems_reset_def level_ref_def mu_jems_object_open_def mu_jems_key_integer_def
        mu_jems_key_array_open_def mu_jems_array_open_def mu_jems_integer_def
        mu_jems_string_def mu_jems_object_close_def mu_jems_array_close_def
        written_pop_level emit_quoted_byte_def punctuation_def commify_written
        commify_levels commify_curr_level commify_max_level emit_char_fields
        emit_string_fields push_level_room snprintf_d64_small)
qed

theorem scenario_output_witness:
  \<open>3 \<le> unat (4 :: size_t)
   \<and> unat (4 :: size_t) \<le> length (replicate 4 \<lparr>item_count = 9, is_object = True\<rparr>)
   \<and> map_option written
        (emit_scenario (mu_jems_init (replicate 4 \<lparr>item_count = 9, is_object = True\<rparr>) 4))
       = Some ''{"x":1,"y":[2,3.500000]}''\<close>
proof -
  have h1: "3 \<le> unat (4 :: size_t)" by simp
  have h2: "unat (4 :: size_t) \<le> length (replicate 4 \<lparr>item_count = 9, is_object = True\<rparr>)"
    by simp
  show ?thesis
    using h1 h2 scenario_output [OF h1 h2] by simp
qed

text \<open>
  The stream the specification asks for, \<^verbatim>\<open>{"x":1,"y":[2,3.5]}\<close>, is not what the
  writer receives.
\<close>

theorem scenario_output_counterexample:
  \<open>map_option written
     (emit_scenario (mu_jems_init (replicate 4 \<lparr>item_count = 0, is_object = False\<rparr>) 4))
    \<noteq> Some ''{"x":1,"y":[2,3.5]}''\<close>
  unfolding emit_scenario_def Let_def mu_jems_number_3_5 option.case
  by code_simp

section \<open>Properties of the tokenizer\<close>

subsection \<open>Concrete runs\<close>

text \<open>A caller's array of four tokens, zeroed.\<close>

definition four_tokens :: "mu_json_token_t list" where
  "four_tokens = replicate 4 zero_token"

text \<open>
  C2. The claim is that no input satisfying the preconditions makes the parser return
  \<open>MU_JSON_ERR_INTERNAL\<close>. The input \<^verbatim>\<open>{1}\<close> does: \<open>parse_object\<close> calls \<open>parse_string\<close>
  for the key without looking at the next byte, and \<open>parse_string\<close> answers a byte that
  is not a quote with \<open>MU_JSON_ERR_INTERNAL\<close>, which is passed up unchanged.
\<close>

theorem internal_error_returned:
  "map_option fst (mu_json_parse_str ''{1}'' (Some four_tokens) 4)
     = Some (err_value MU_JSON_ERR_INTERNAL)
   \<and> map_option fst (mu_json_parse_buffer (Some ''{1}'') 3 (Some four_tokens) 4)
       = Some (err_value MU_JSON_ERR_INTERNAL)
   \<and> err_value MU_JSON_ERR_INTERNAL = - 9"
  by code_simp

text \<open>
  C4. The claim is that every violation of the preconditions, a negative length
  included, is answered with \<open>MU_JSON_ERR_BAD_ARGUMENT\<close>. \<open>parse_json\<close> compares the length
  with zero only: a length of \<open>-1\<close> passes the check, the parser is at the end of its
  input at once, and the call returns \<open>MU_JSON_ERR_NO_ENTITIES\<close>.
\<close>

theorem negative_arguments_not_rejected:
  "map_option fst (mu_json_parse_buffer (Some ''1'') (- 1) (Some four_tokens) 4)
     = Some (err_value MU_JSON_ERR_NO_ENTITIES)
   \<and> err_value MU_JSON_ERR_NO_ENTITIES \<noteq> err_value MU_JSON_ERR_BAD_ARGUMENT"
  by code_simp

text \<open>The arguments that \<open>parse_json\<close> does reject: a null pointer, a zero length, a zero capacity.\<close>

lemma bad_argument_null_or_zero:
  "parse_json None n ts m = Some (err_value MU_JSON_ERR_BAD_ARGUMENT, ts)"
  "parse_json s n None m = Some (err_value MU_JSON_ERR_BAD_ARGUMENT, None)"
  "parse_json s 0 ts m = Some (err_value MU_JSON_ERR_BAD_ARGUMENT, ts)"
  "parse_json s n ts 0 = Some (err_value MU_JSON_ERR_BAD_ARGUMENT, ts)"
  by (simp_all add: parse_json_def split: option.splits)

subsection \<open>What a parse does to the token array\<close>

text \<open>
  \<open>tokens_kept p p'\<close> relates a parser state to a later one: the array keeps its size,
  no \<open>is_last\<close> flag changes, the tokens allocated before \<open>p\<close> keep their level, tokens
  are only added, never beyond \<open>max_tokens\<close>, the first token added after \<open>p\<close> carries
  the level that \<open>p\<close> had, and the level is only changed once a token has been added.
\<close>

definition tokens_kept :: "parser_t \<Rightarrow> parser_t \<Rightarrow> bool" where
  "tokens_kept p p' =
     (length (token_store p') = length (token_store p)
      \<and> max_tokens p' = max_tokens p
      \<and> token_count p \<le> token_count p'
      \<and> int (token_count p') \<le> max (int (token_count p)) (max_tokens p)
      \<and> map tok_is_last (token_store p') = map tok_is_last (token_store p)
      \<and> (\<forall>i. i < token_count p \<and> i < length (token_store p)
             \<longrightarrow> tok_level (token_store p' ! i) = tok_level (token_store p ! i))
      \<and> (token_count p < token_count p' \<and> token_count p < length (token_store p)
           \<longrightarrow> tok_level (token_store p' ! token_count p) = of_int (level p))
      \<and> (token_count p' = token_count p \<longrightarrow> level p' = level p))"

lemma tokens_kept_refl [simp]: "tokens_kept p p"
  by (simp add: tokens_kept_def)

lemma tokens_kept_trans:
  assumes "tokens_kept p q" and "tokens_kept q r"
  shows "tokens_kept p r"
proof -
  have first: "tok_level (token_store r ! token_count p) = of_int (level p)"
    if "token_count p < token_count r" "token_count p < length (token_store p)"
  proof (cases "token_count p < token_count q")
    case True
    then have "tok_level (token_store q ! token_count p) = of_int (level p)"
      using assms(1) that(2) by (simp add: tokens_kept_def)
    moreover have "tok_level (token_store r ! token_count p)
        = tok_level (token_store q ! token_count p)"
      using assms True that(2) by (simp add: tokens_kept_def)
    ultimately show ?thesis by simp
  next
    case False
    then have eq: "token_count q = token_count p" "level q = level p"
      using assms(1) by (auto simp: tokens_kept_def)
    then show ?thesis
      using assms that by (simp add: tokens_kept_def)
  qed
  have rest: "length (token_store r) = length (token_store p)"
    "max_tokens r = max_tokens p"
    "token_count p \<le> token_count r"
    "int (token_count r) \<le> max (int (token_count p)) (max_tokens p)"
    "map tok_is_last (token_store r) = map tok_is_last (token_store p)"
    "\<forall>i. i < token_count p \<and> i < length (token_store p)
        \<longrightarrow> tok_level (token_store r ! i) = tok_level (token_store p ! i)"
    "token_count r = token_count p \<longrightarrow> level r = level p"
    using assms by (auto simp: tokens_kept_def)
  show ?thesis
    unfolding tokens_kept_def using first rest by blast
qed

lemma map_update_same: "(map g xs)[k := g (xs ! k)] = map g xs"
  by (cases "k < length xs") (simp_all add: list_update_beyond list_update_same_conv)

lemma on_token_flags:
  assumes "\<And>t. tok_is_last (f t) = tok_is_last t"
  shows "map tok_is_last (token_store (on_token p k f)) = map tok_is_last (token_store p)"
  using assms map_update_same [of tok_is_last "token_store p" k]
  by (simp add: on_token_def map_update)

lemma on_token_levels:
  assumes "\<And>t. tok_level (f t) = tok_level t"
  shows "map tok_level (token_store (on_token p k f)) = map tok_level (token_store p)"
  using assms map_update_same [of tok_level "token_store p" k]
  by (simp add: on_token_def map_update)

lemma map_level_nth:
  assumes "map tok_level xs = map tok_level ys" and "i < length ys"
  shows "tok_level (xs ! i) = tok_level (ys ! i)"
proof -
  have "length xs = length ys"
    using assms(1) by (rule map_eq_imp_length_eq)
  then have "map tok_level xs ! i = tok_level (xs ! i)"
    and "map tok_level ys ! i = tok_level (ys ! i)"
    using assms(2) by simp_all
  then show ?thesis
    using assms(1) by simp
qed

text \<open>A later state that differs only in fields the relation does not read.\<close>

lemma tokens_kept_same_tokens:
  assumes "tokens_kept p q"
    and "map tok_is_last (token_store q') = map tok_is_last (token_store q)"
    and "map tok_level (token_store q') = map tok_level (token_store q)"
    and "token_count q' = token_count q" "max_tokens q' = max_tokens q"
    and "level q' = level q \<or> token_count p < token_count q"
  shows "tokens_kept p q'"
proof -
  have len: "length (token_store q') = length (token_store q)"
    using assms(2) by (rule map_eq_imp_length_eq)
  have lv: "tok_level (token_store q' ! i) = tok_level (token_store q ! i)"
    if "i < length (token_store q)" for i
    using assms(3) that by (rule map_level_nth)
  have lenp: "length (token_store q) = length (token_store p)"
    using assms(1) by (simp add: tokens_kept_def)
  have "\<forall>i. i < token_count p \<and> i < length (token_store p)
        \<longrightarrow> tok_level (token_store q' ! i) = tok_level (token_store p ! i)"
    using assms(1) lv lenp by (simp add: tokens_kept_def)
  moreover have "token_count p < token_count q' \<and> token_count p < length (token_store p)
        \<longrightarrow> tok_level (token_store q' ! token_count p) = of_int (level p)"
    using assms(1,4) lv lenp by (simp add: tokens_kept_def)
  moreover have "token_count q' = token_count p \<longrightarrow> level q' = level p"
    using assms(1,4,6) by (auto simp: tokens_kept_def)
  moreover have "length (token_store q') = length (token_store p)"
    "max_tokens q' = max_tokens p" "token_count p \<le> token_count q'"
    "int (token_count q') \<le> max (int (token_count p)) (max_tokens p)"
    "map tok_is_last (token_store q') = map tok_is_last (token_store p)"
    using assms(1,2,4,5) len lenp by (simp_all add: tokens_kept_def)
  ultimately show ?thesis
    unfolding tokens_kept_def by blast
qed

lemma tokens_kept_get_char: "tokens_kept p q \<Longrightarrow> tokens_kept p (snd (get_char q))"
  by (rule tokens_kept_same_tokens [where q = q]) simp_all

lemma tokens_kept_on_token:
  assumes "tokens_kept p q"
    and "\<And>t. tok_is_last (f t) = tok_is_last t" and "\<And>t. tok_level (f t) = tok_level t"
  shows "tokens_kept p (on_token q k f)"
  by (rule tokens_kept_same_tokens [where q = q])
    (simp_all add: on_token_flags on_token_levels assms)

lemma tokens_kept_finalize: "tokens_kept p q \<Longrightarrow> tokens_kept p (finalize_token q k)"
  unfolding finalize_token_def
  by (rule tokens_kept_on_token) (simp_all add: set_token_string_length_def)

lemma init_token_store:
  assumes "init_token p ty = Some (tok, p1)"
  shows "token_store p1 = (token_store p)[token_count p :=
      (token_store p ! token_count p)\<lparr>tok_str := Some (str_pos p), tok_type := ty,
         tok_level := of_int (level p)\<rparr>]"
proof (cases "token_count p < length (token_store p)")
  case True
  then show ?thesis
    using assms
    by (auto simp: init_token_def alloc_token_def Let_def on_token_def set_token_string_def
        set_token_type_def set_token_level_def ref_char_def split: if_splits)
next
  case False
  then show ?thesis
    using assms
    by (auto simp: init_token_def alloc_token_def Let_def on_token_def list_update_beyond
        split: if_splits)
qed

lemma tokens_kept_init:
  assumes "init_token p ty = Some (tok, p1)"
  shows "tokens_kept p p1"
proof -
  note st = init_token_store [OF assms]
  have c: "int (token_count p) < max_tokens p"
    and f: "token_count p1 = Suc (token_count p)" "max_tokens p1 = max_tokens p"
      "level p1 = level p"
    using init_token_fields [OF assms] by simp_all
  have fl: "map tok_is_last (token_store p1) = map tok_is_last (token_store p)"
    using map_update_same [of tok_is_last "token_store p" "token_count p"]
    by (simp add: st map_update)
  show ?thesis
    unfolding tokens_kept_def using c f fl by (auto simp: st)
qed

text \<open>The scanning loops change nothing but the read position.\<close>

lemma skip_whitespace_scan: "\<exists>n. skip_whitespace p = p\<lparr>str_pos := n\<rparr>"
proof (induction p rule: skip_whitespace.induct)
  case (1 p)
  show ?case
  proof (cases "\<not> at_eos p \<and> (peek_char p = CHR '' '' \<or> peek_char p = CHR 0x09
      \<or> peek_char p = CHR 0x0A \<or> peek_char p = CHR 0x0D)")
    case True
    then have e: "skip_whitespace p = skip_whitespace (snd (get_char p))"
      by (subst skip_whitespace.simps) (simp add: Let_def)
    obtain n where "skip_whitespace (snd (get_char p)) = (snd (get_char p))\<lparr>str_pos := n\<rparr>"
      using "1.IH" True by blast
    then have "skip_whitespace p = p\<lparr>str_pos := n\<rparr>"
      using e by (simp add: get_char_def)
    then show ?thesis ..
  next
    case False
    then have "skip_whitespace p = p\<lparr>str_pos := str_pos p\<rparr>"
      by (subst skip_whitespace.simps) (auto simp: Let_def)
    then show ?thesis ..
  qed
qed

lemma digits_loop_scan: "\<exists>n. snd (digits_loop has p) = p\<lparr>str_pos := n\<rparr>"
proof (induction has p rule: digits_loop.induct)
  case (1 has p)
  show ?case
  proof (cases "\<not> at_eos p \<and> peek_char p \<ge> CHR ''0'' \<and> peek_char p \<le> CHR ''9''")
    case True
    then have e: "digits_loop has p = digits_loop True (snd (get_char p))"
      by (subst digits_loop.simps) (simp add: Let_def)
    obtain n where
      "snd (digits_loop True (snd (get_char p))) = (snd (get_char p))\<lparr>str_pos := n\<rparr>"
      using "1.IH" True by blast
    then have "snd (digits_loop has p) = p\<lparr>str_pos := n\<rparr>"
      using e by (simp add: get_char_def)
    then show ?thesis ..
  next
    case False
    then have "snd (digits_loop has p) = p\<lparr>str_pos := str_pos p\<rparr>"
      by (subst digits_loop.simps) (auto simp: Let_def)
    then show ?thesis ..
  qed
qed

lemma unicode_escape_scan: "\<exists>n. snd (unicode_escape k p) = p\<lparr>str_pos := n\<rparr>"
proof (induction k arbitrary: p)
  case 0
  have "snd (unicode_escape 0 p) = p\<lparr>str_pos := str_pos p\<rparr>" by simp
  then show ?case ..
next
  case (Suc k)
  show ?case
  proof (cases "at_eos p \<or> \<not> is_hex (peek_char p)")
    case True
    then have "snd (unicode_escape (Suc k) p) = p\<lparr>str_pos := str_pos p\<rparr>" by auto
    then show ?thesis ..
  next
    case False
    obtain n where "snd (unicode_escape k (snd (get_char p))) = (snd (get_char p))\<lparr>str_pos := n\<rparr>"
      using Suc.IH by blast
    then have "snd (unicode_escape (Suc k) p) = p\<lparr>str_pos := n\<rparr>"
      using False by (simp add: get_char_def)
    then show ?thesis ..
  qed
qed

lemma match_literal_scan: "\<exists>n. snd (match_literal cs p) = p\<lparr>str_pos := n\<rparr>"
proof (induction cs arbitrary: p)
  case Nil
  have "snd (match_literal [] p) = p\<lparr>str_pos := str_pos p\<rparr>" by simp
  then show ?case ..
next
  case (Cons c cs)
  show ?case
  proof (cases "at_eos p")
    case True
    then have "snd (match_literal (c # cs) p) = p\<lparr>str_pos := str_pos p\<rparr>" by simp
    then show ?thesis ..
  next
    case False
    note not_eos = False
    show ?thesis
    proof (cases "fst (get_char p) \<noteq> c")
      case True
      then have "snd (match_literal (c # cs) p) = p\<lparr>str_pos := Suc (str_pos p)\<rparr>"
        using not_eos by (simp add: get_char_def)
      then show ?thesis ..
    next
      case False
      obtain n where
        "snd (match_literal cs (snd (get_char p))) = (snd (get_char p))\<lparr>str_pos := n\<rparr>"
        using Cons.IH by blast
      then have "snd (match_literal (c # cs) p) = p\<lparr>str_pos := n\<rparr>"
        using False not_eos by (simp add: get_char_def split: prod.splits)
      then show ?thesis ..
    qed
  qed
qed

lemma parse_string_loop_scan: "\<exists>n. snd (parse_string_loop p) = p\<lparr>str_pos := n\<rparr>"
proof (induction p rule: parse_string_loop.induct)
  case (1 p)
  note IH = "1.IH"
  have stay: "snd (e, p) = p\<lparr>str_pos := str_pos p\<rparr>" for e :: mu_json_err_t
    by simp
  show ?case
  proof (cases "at_eos p")
    case True
    then have "snd (parse_string_loop p) = p\<lparr>str_pos := str_pos p\<rparr>"
      by (subst parse_string_loop.simps) simp
    then show ?thesis ..
  next
    case False
    note not_eos = False
    define p1 where "p1 = snd (get_char p)"
    have p1: "p1 = p\<lparr>str_pos := Suc (str_pos p)\<rparr>"
      by (simp add: p1_def get_char_def)
    show ?thesis
    proof (cases "peek_char p = CHR 0x5C")
      case True
      note bs = True
      show ?thesis
      proof (cases "at_eos p1")
        case True
        then have "snd (parse_string_loop p) = p\<lparr>str_pos := Suc (str_pos p)\<rparr>"
          using not_eos bs
          by (subst parse_string_loop.simps) (simp add: Let_def p1_def get_char_def)
        then show ?thesis ..
      next
        case False
        note not_eos1 = False
        define ec where "ec = peek_char p1"
        consider (simple) "ec = CHR 0x22 \<or> ec = CHR 0x5C \<or> ec = CHR ''/'' \<or> ec = CHR ''b''
              \<or> ec = CHR ''f'' \<or> ec = CHR ''n'' \<or> ec = CHR ''r'' \<or> ec = CHR ''t''"
          | (uni) "\<not> (ec = CHR 0x22 \<or> ec = CHR 0x5C \<or> ec = CHR ''/'' \<or> ec = CHR ''b''
              \<or> ec = CHR ''f'' \<or> ec = CHR ''n'' \<or> ec = CHR ''r'' \<or> ec = CHR ''t'')"
            "ec = CHR ''u''"
          | (bad) "\<not> (ec = CHR 0x22 \<or> ec = CHR 0x5C \<or> ec = CHR ''/'' \<or> ec = CHR ''b''
              \<or> ec = CHR ''f'' \<or> ec = CHR ''n'' \<or> ec = CHR ''r'' \<or> ec = CHR ''t'')"
            "ec \<noteq> CHR ''u''"
          by blast
        then show ?thesis
        proof cases
          case simple
          obtain n where "snd (parse_string_loop (snd (get_char p1)))
              = (snd (get_char p1))\<lparr>str_pos := n\<rparr>"
            using IH(1) [OF not_eos refl bs p1_def not_eos1 ec_def simple] by blast
          then have "snd (parse_string_loop p) = p\<lparr>str_pos := n\<rparr>"
            using not_eos bs not_eos1 simple
            by (subst parse_string_loop.simps)
              (simp add: Let_def p1_def [symmetric] ec_def [symmetric], simp add: p1 get_char_def)
          then show ?thesis ..
        next
          case uni
          obtain err p2 where u: "unicode_escape 4 (snd (get_char p1)) = (err, p2)"
            by fastforce
          obtain m where "snd (unicode_escape 4 (snd (get_char p1)))
              = (snd (get_char p1))\<lparr>str_pos := m\<rparr>"
            using unicode_escape_scan by blast
          then have p2: "p2 = p\<lparr>str_pos := m\<rparr>"
            using u by (simp add: p1 get_char_def)
          show ?thesis
          proof (cases "err = MU_JSON_ERR_NONE")
            case True
            then have ok: "\<not> err \<noteq> MU_JSON_ERR_NONE" by simp
            obtain n where "snd (parse_string_loop p2) = p2\<lparr>str_pos := n\<rparr>"
              using IH(2) [OF not_eos refl bs p1_def not_eos1 ec_def uni u [symmetric] ok]
              by blast
            then have "snd (parse_string_loop p) = p\<lparr>str_pos := n\<rparr>"
              using not_eos bs not_eos1 uni u True
              by (subst parse_string_loop.simps)
                (simp add: Let_def p1_def [symmetric] ec_def [symmetric], simp add: p2)
            then show ?thesis ..
          next
            case False
            then have "snd (parse_string_loop p) = p\<lparr>str_pos := m\<rparr>"
              using not_eos bs not_eos1 uni u
              by (subst parse_string_loop.simps)
                (simp add: Let_def p1_def [symmetric] ec_def [symmetric], simp add: p2)
            then show ?thesis ..
          qed
        next
          case bad
          then have "snd (parse_string_loop p) = p\<lparr>str_pos := Suc (str_pos p)\<rparr>"
            using not_eos bs not_eos1
            by (subst parse_string_loop.simps)
              (simp add: Let_def p1_def [symmetric] ec_def [symmetric], simp add: p1)
          then show ?thesis ..
        qed
      qed
    next
      case False
      note not_bs = False
      show ?thesis
      proof (cases "high_bit (peek_char p) \<or> (of_char (peek_char p) :: nat) < 0x20
          \<or> peek_char p = CHR 0x22")
        case True
        then have "snd (parse_string_loop p) = p\<lparr>str_pos := str_pos p\<rparr>"
          using not_eos not_bs by (subst parse_string_loop.simps) (auto simp: Let_def)
        then show ?thesis ..
      next
        case False
        then obtain n where "snd (parse_string_loop p1) = p1\<lparr>str_pos := n\<rparr>"
          using IH(3) [OF not_eos refl not_bs] p1_def by auto
        then have "snd (parse_string_loop p) = p\<lparr>str_pos := n\<rparr>"
          using not_eos not_bs False
          by (subst parse_string_loop.simps)
            (simp add: Let_def p1_def [symmetric], simp add: p1)
        then show ?thesis ..
      qed
    qed
  qed
qed

text \<open>
  \<open>steps p p'\<close>: the token array has been kept in the sense above and the nesting level
  is the same.
\<close>

definition steps :: "parser_t \<Rightarrow> parser_t \<Rightarrow> bool" where
  "steps p p' = (tokens_kept p p' \<and> level p' = level p)"

lemma steps_refl [simp]: "steps p p"
  by (simp add: steps_def)

lemma steps_trans: "steps p q \<Longrightarrow> steps q r \<Longrightarrow> steps p r"
  by (auto simp: steps_def intro: tokens_kept_trans)

lemma steps_pos [simp]: "steps p (p\<lparr>str_pos := n\<rparr>)"
proof -
  have "tokens_kept p (p\<lparr>str_pos := n\<rparr>)"
    by (rule tokens_kept_same_tokens [where q = p]) simp_all
  then show ?thesis by (simp add: steps_def)
qed

lemma steps_get_char [simp]: "steps p (snd (get_char p))"
  by (simp add: get_char_def)

lemma steps_on_token:
  assumes "\<And>t. tok_is_last (f t) = tok_is_last t" and "\<And>t. tok_level (f t) = tok_level t"
  shows "steps p (on_token p k f)"
proof -
  have "tokens_kept p (on_token p k f)"
    by (rule tokens_kept_on_token) (simp_all add: assms)
  then show ?thesis by (simp add: steps_def)
qed

lemma steps_set_type [simp]: "steps p (on_token p k (\<lambda>t. set_token_type t ty))"
  by (rule steps_on_token) (simp_all add: set_token_type_def)

lemma steps_finalize [simp]: "steps p (finalize_token p k)"
  unfolding finalize_token_def
  by (rule steps_on_token) (simp_all add: set_token_string_length_def)

lemma steps_init: "init_token p ty = Some (tok, p1) \<Longrightarrow> steps p p1"
  by (simp add: steps_def tokens_kept_init init_token_fields)

lemma steps_skip_whitespace [simp]: "steps p (skip_whitespace p)"
  using skip_whitespace_scan [of p] by auto

lemma steps_digits_loop: "digits_loop has p = (has', p') \<Longrightarrow> steps p p'"
  using digits_loop_scan [of has p] by auto

lemma steps_match_literal: "match_literal cs p = (e, p') \<Longrightarrow> steps p p'"
  using match_literal_scan [of cs p] by auto

lemma steps_parse_string_loop: "parse_string_loop p = (e, p') \<Longrightarrow> steps p p'"
  using parse_string_loop_scan [of p] by auto

lemma steps_then_get_char: "steps p q \<Longrightarrow> steps p (snd (get_char q))"
  using steps_trans steps_get_char by blast

lemma steps_then_pos: "steps p q \<Longrightarrow> steps p (q\<lparr>str_pos := n\<rparr>)"
  using steps_trans steps_pos by blast

lemma steps_then_finalize: "steps p q \<Longrightarrow> steps p (finalize_token q k)"
  using steps_trans steps_finalize by blast

lemma steps_then_set_type:
  "steps p q \<Longrightarrow> steps p (on_token q k (\<lambda>t. set_token_type t ty))"
  using steps_trans steps_set_type by blast

lemma steps_then_skip_whitespace: "steps p q \<Longrightarrow> steps p (skip_whitespace q)"
  using steps_trans steps_skip_whitespace by blast

lemma steps_then_digits_loop:
  "digits_loop has q = (has', q') \<Longrightarrow> steps p q \<Longrightarrow> steps p q'"
  using steps_trans steps_digits_loop by blast

lemma steps_then_match_literal:
  "match_literal cs q = (e, q') \<Longrightarrow> steps p q \<Longrightarrow> steps p q'"
  using steps_trans steps_match_literal by blast

lemma steps_then_parse_string_loop:
  "parse_string_loop q = (e, q') \<Longrightarrow> steps p q \<Longrightarrow> steps p q'"
  using steps_trans steps_parse_string_loop by blast

lemma steps_parse_string: "parse_string p = (e, p') \<Longrightarrow> steps p p'"
  by (auto simp: parse_string_def Let_def split: if_splits option.splits prod.splits
      intro!: steps_then_finalize steps_then_get_char
      elim!: steps_then_parse_string_loop dest!: steps_init)

lemma steps_parse_number_integer: "parse_number_integer p = (e, p') \<Longrightarrow> steps p p'"
  by (auto simp: parse_number_integer_def Let_def split: if_splits prod.splits
      intro!: steps_then_get_char elim!: steps_then_digits_loop)

lemma steps_parse_number_fraction: "parse_number_fraction p tok = (e, p') \<Longrightarrow> steps p p'"
  by (auto simp: parse_number_fraction_def Let_def split: if_splits prod.splits
      intro!: steps_then_get_char steps_then_set_type elim!: steps_then_digits_loop)

lemma steps_parse_number_exponent: "parse_number_exponent p tok = (e, p') \<Longrightarrow> steps p p'"
  by (auto simp: parse_number_exponent_def Let_def split: if_splits prod.splits
      intro!: steps_then_get_char steps_then_set_type elim!: steps_then_digits_loop)

lemma steps_parse_number: "parse_number p = (e, p') \<Longrightarrow> steps p p'"
proof -
  assume r: "parse_number p = (e, p')"
  show ?thesis
  proof (cases "init_token p MU_JSON_TOKEN_TYPE_INTEGER")
    case None
    then show ?thesis
      using r by (auto simp: parse_number_def split: if_splits)
  next
    case (Some a)
    obtain tok p1 where a: "a = (tok, p1)" by (cases a)
    obtain e2 p2 where r2: "parse_number_integer p1 = (e2, p2)" by fastforce
    obtain e3 p3 where r3: "parse_number_fraction p2 tok = (e3, p3)" by fastforce
    obtain e4 p4 where r4: "parse_number_exponent p3 tok = (e4, p4)" by fastforce
    have s1: "steps p p1" using Some a steps_init by blast
    have s2: "steps p p2" using s1 steps_parse_number_integer [OF r2] steps_trans by blast
    have s3: "steps p p3" using s2 steps_parse_number_fraction [OF r3] steps_trans by blast
    have s4: "steps p p4" using s3 steps_parse_number_exponent [OF r4] steps_trans by blast
    show ?thesis
      using r Some a r2 r3 r4 s1 s2 s3 s4
      by (auto simp: parse_number_def steps_then_finalize split: if_splits)
  qed
qed

lemma steps_parse_literal: "parse_literal p lit ty = (e, p') \<Longrightarrow> steps p p'"
  by (auto simp: parse_literal_def Let_def split: if_splits option.splits prod.splits
      intro!: steps_then_finalize elim!: steps_then_match_literal dest!: steps_init)

lemma steps_find_and_skip: "find_and_skip p c = (e, p') \<Longrightarrow> steps p p'"
  by (auto simp: find_and_skip_def Let_def split: if_splits
      intro!: steps_then_skip_whitespace steps_then_get_char)

text \<open>
  \<open>kept_ok p e p'\<close>: what a parsing function that returns \<open>e\<close> in state \<open>p'\<close> guarantees
  about the state \<open>p\<close> it was called in. The level is restored on success only.
\<close>

definition kept_ok :: "parser_t \<Rightarrow> mu_json_err_t \<Rightarrow> parser_t \<Rightarrow> bool" where
  "kept_ok p e p' = (tokens_kept p p' \<and> (e = MU_JSON_ERR_NONE \<longrightarrow> level p' = level p))"

lemma steps_kept_ok: "steps p p' \<Longrightarrow> kept_ok p e p'"
  by (simp add: steps_def kept_ok_def)

lemma steps_then_kept_ok: "steps p q \<Longrightarrow> kept_ok q e r \<Longrightarrow> kept_ok p e r"
  by (auto simp: steps_def kept_ok_def intro: tokens_kept_trans)

lemma kept_ok_steps: "kept_ok p MU_JSON_ERR_NONE q \<Longrightarrow> steps p q"
  by (simp add: steps_def kept_ok_def)

lemma kept_ok_failure: "tokens_kept p q \<Longrightarrow> e \<noteq> MU_JSON_ERR_NONE \<Longrightarrow> kept_ok p e q"
  by (simp add: kept_ok_def)

text \<open>The body of \<open>parse_object\<close> and \<open>parse_array\<close> around the member loop.\<close>

lemma container_kept_ok:
  assumes init: "init_token p ty = Some (tok, p1)"
    and p3: "p3 = snd (get_char (p1\<lparr>level := level p1 + 1\<rparr>))"
    and loop: "kept_ok p3 e4 p4"
  shows "tokens_kept p p4"
    and "e4 = MU_JSON_ERR_NONE \<Longrightarrow>
      kept_ok p MU_JSON_ERR_NONE
        (on_token ((snd (get_char p4))\<lparr>level := level (snd (get_char p4)) - 1\<rparr>) tok
           (\<lambda>t. set_token_string_length t (g t)))"
proof -
  have k1: "tokens_kept p p1" and c1: "token_count p1 = Suc (token_count p)"
    and l1: "level p1 = level p"
    using tokens_kept_init [OF init] init_token_fields [OF init] by simp_all
  have k3: "tokens_kept p p3"
    using k1 by (rule tokens_kept_same_tokens) (simp_all add: p3 c1)
  have k34: "tokens_kept p3 p4"
    using loop by (simp add: kept_ok_def)
  show k4: "tokens_kept p p4"
    using k3 k34 by (rule tokens_kept_trans)
  have c4: "token_count p < token_count p4"
    using k34 c1 by (simp add: tokens_kept_def p3)
  let ?q = "(snd (get_char p4))\<lparr>level := level (snd (get_char p4)) - 1\<rparr>"
  let ?r = "on_token ?q tok (\<lambda>t. set_token_string_length t (g t))"
  have fl: "map tok_is_last (token_store ?r) = map tok_is_last (token_store p4)"
    using on_token_flags [of "\<lambda>t. set_token_string_length t (g t)" ?q tok]
    by (simp add: set_token_string_length_def)
  have lv: "map tok_level (token_store ?r) = map tok_level (token_store p4)"
    using on_token_levels [of "\<lambda>t. set_token_string_length t (g t)" ?q tok]
    by (simp add: set_token_string_length_def)
  have kr: "tokens_kept p ?r"
    using k4 fl lv by (rule tokens_kept_same_tokens) (simp_all add: c4)
  show "kept_ok p MU_JSON_ERR_NONE ?r" if "e4 = MU_JSON_ERR_NONE"
    using kr loop that by (simp add: kept_ok_def p3 l1)
qed

lemma parser_kept_ok:
  "\<forall>e p'. parse_element p1 = (e, p') \<longrightarrow> kept_ok p1 e p'"
  "\<forall>e p'. parse_object p2 = (e, p') \<longrightarrow> kept_ok p2 e p'"
  "\<forall>e p'. parse_object_loop p3 b3 = (e, p') \<longrightarrow> kept_ok p3 e p'"
  "\<forall>e p'. parse_array p4 = (e, p') \<longrightarrow> kept_ok p4 e p'"
  "\<forall>e p'. parse_array_loop p5 b5 = (e, p') \<longrightarrow> kept_ok p5 e p'"
proof (induct p1 and p2 and p3 b3 and p4 and p5 b5
    rule: parse_element_parse_object_parse_object_loop_parse_array_parse_array_loop.induct)
  case (1 p)
  define q where "q = skip_whitespace p"
  have s: "steps p q" by (simp add: q_def)
  have ih_obj: "kept_ok q e p'"
    if "\<not> at_eos q" "peek_char q = CHR ''{''" "parse_object q = (e, p')" for e p'
    using 1(1) [OF q_def that(1) refl] that(2,3) by (simp add: is_digit_def)
  have ih_arr: "kept_ok q e p'"
    if "\<not> at_eos q" "peek_char q = CHR ''[''" "parse_array q = (e, p')" for e p'
    using 1(2) [OF q_def that(1) refl] that(2,3) by (simp add: is_digit_def)
  show ?case
  proof (intro allI impI)
    fix e p'
    assume r: "parse_element p = (e, p')"
    have "kept_ok q e p'"
    proof (cases "at_eos q")
      case True
      then show ?thesis
        using r by (simp add: parse_element.simps [of p] q_def [symmetric] steps_kept_ok)
    next
      case False
      then show ?thesis
        using r ih_obj ih_arr
        by (auto simp: parse_element.simps [of p] q_def [symmetric] Let_def steps_kept_ok
            split: if_splits
            dest!: steps_parse_string steps_parse_number steps_parse_literal)
    qed
    then show "kept_ok p e p'"
      using s by (rule steps_then_kept_ok [rotated])
  qed
next
  case (2 p)
  show ?case
  proof (intro allI impI)
    fix e p'
    assume r: "parse_object p = (e, p')"
    show "kept_ok p e p'"
    proof (cases "at_eos p \<or> peek_char p \<noteq> CHR ''{''")
      case True
      then show ?thesis
        using r by (auto simp: parse_object.simps [of p] steps_kept_ok)
    next
      case guard: False
      show ?thesis
      proof (cases "init_token p MU_JSON_TOKEN_TYPE_OBJECT")
        case None
        then show ?thesis
          using r guard by (auto simp: parse_object.simps [of p] steps_kept_ok)
      next
        case (Some a)
        obtain tok q1 where a: "a = (tok, q1)" by (cases a)
        define q3 where "q3 = snd (get_char (q1\<lparr>level := level q1 + 1\<rparr>))"
        obtain e4 q4 where l: "parse_object_loop q3 True = (e4, q4)" by fastforce
        have ih: "kept_ok q3 e4 q4"
          using 2(1) [OF guard Some a [symmetric] refl q3_def] l by simp
        note c = container_kept_ok [OF Some [unfolded a] q3_def ih]
        show ?thesis
          using r guard Some a l c(1) c(2)
          by (auto simp: parse_object.simps [of p] Let_def q3_def [symmetric] kept_ok_failure
              ref_char_def split: if_splits)
      qed
    qed
  qed
next
  case (3 p first_pair)
  define q where "q = skip_whitespace p"
  have s: "steps p q" by (simp add: q_def)
  show ?case
  proof (intro allI impI)
    fix e p'
    assume r: "parse_object_loop p first_pair = (e, p')"
    show "kept_ok p e p'"
    proof (cases "at_eos q \<or> peek_char q = CHR ''}''")
      case True
      then show ?thesis
        using r s
        by (auto simp: parse_object_loop.simps [of p] q_def [symmetric] steps_kept_ok
            split: if_splits)
    next
      case False
      then have g1: "\<not> at_eos q" and g2: "peek_char q \<noteq> CHR ''}''" by simp_all
      obtain e2 q2 where r2:
        "(if \<not> first_pair then find_and_skip q CHR '','' else (MU_JSON_ERR_NONE, q)) = (e2, q2)"
        by fastforce
      obtain e3 q3 where r3: "parse_string q2 = (e3, q3)" by fastforce
      obtain e4 q4 where r4: "find_and_skip q3 CHR '':'' = (e4, q4)" by fastforce
      obtain e5 q5 where r5: "parse_element q4 = (e5, q5)" by fastforce
      obtain e6 q6 where r6: "parse_object_loop q5 False = (e6, q6)" by fastforce
      have a2: "steps p q2"
        using r2 s steps_find_and_skip [of q "CHR '',''" e2 q2] steps_trans
        by (auto split: if_splits)
      have a3: "steps p q3"
        using a2 steps_parse_string [OF r3] steps_trans by blast
      have a4: "steps p q4"
        using a3 steps_find_and_skip [OF r4] steps_trans by blast
      have a5: "kept_ok p e5 q5"
        if "e2 = MU_JSON_ERR_NONE" "e3 = MU_JSON_ERR_NONE" "e4 = MU_JSON_ERR_NONE"
        using 3(1) [OF q_def g1 g2 r2 [symmetric] _ r3 [symmetric] _ r4 [symmetric]] that r5
          a4 steps_then_kept_ok
        by simp
      have a6: "kept_ok p e6 q6"
        if "e2 = MU_JSON_ERR_NONE" "e3 = MU_JSON_ERR_NONE" "e4 = MU_JSON_ERR_NONE"
          "e5 = MU_JSON_ERR_NONE"
      proof -
        have "kept_ok q5 e6 q6"
          using 3(2) [OF q_def g1 g2 r2 [symmetric] _ r3 [symmetric] _ r4 [symmetric] _
              r5 [symmetric]] that r6
          by simp
        moreover have "steps p q5"
          using a5 that by (simp add: kept_ok_steps)
        ultimately show ?thesis
          by (rule steps_then_kept_ok [rotated])
      qed
      show ?thesis
        using r g1 g2 r2 r3 r4 r5 r6 a2 a3 a4 a5 a6
        by (auto simp: parse_object_loop.simps [of p] Let_def q_def [symmetric] steps_kept_ok
            split: if_splits)
    qed
  qed
next
  case (4 p)
  show ?case
  proof (intro allI impI)
    fix e p'
    assume r: "parse_array p = (e, p')"
    show "kept_ok p e p'"
    proof (cases "at_eos p \<or> peek_char p \<noteq> CHR ''[''")
      case True
      then show ?thesis
        using r by (auto simp: parse_array.simps [of p] steps_kept_ok)
    next
      case guard: False
      show ?thesis
      proof (cases "init_token p MU_JSON_TOKEN_TYPE_ARRAY")
        case None
        then show ?thesis
          using r guard by (auto simp: parse_array.simps [of p] steps_kept_ok)
      next
        case (Some a)
        obtain tok q1 where a: "a = (tok, q1)" by (cases a)
        define q3 where "q3 = snd (get_char (q1\<lparr>level := level q1 + 1\<rparr>))"
        obtain e4 q4 where l: "parse_array_loop q3 True = (e4, q4)" by fastforce
        have ih: "kept_ok q3 e4 q4"
          using 4(1) [OF guard Some a [symmetric] refl q3_def] l by simp
        note c = container_kept_ok [OF Some [unfolded a] q3_def ih]
        show ?thesis
          using r guard Some a l c(1) c(2)
          by (auto simp: parse_array.simps [of p] Let_def q3_def [symmetric] kept_ok_failure
              ref_char_def split: if_splits)
      qed
    qed
  qed
next
  case (5 p first_element)
  define q where "q = skip_whitespace p"
  have s: "steps p q" by (simp add: q_def)
  show ?case
  proof (intro allI impI)
    fix e p'
    assume r: "parse_array_loop p first_element = (e, p')"
    show "kept_ok p e p'"
    proof (cases "at_eos q \<or> peek_char q = CHR '']''")
      case True
      then show ?thesis
        using r s
        by (auto simp: parse_array_loop.simps [of p] q_def [symmetric] steps_kept_ok
            split: if_splits)
    next
      case False
      then have g1: "\<not> at_eos q" and g2: "peek_char q \<noteq> CHR '']''" by simp_all
      obtain e2 q2 where r2:
        "(if \<not> first_element then find_and_skip q CHR '','' else (MU_JSON_ERR_NONE, q))
           = (e2, q2)"
        by fastforce
      obtain e3 q3 where r3: "parse_element q2 = (e3, q3)" by fastforce
      obtain e4 q4 where r4: "parse_array_loop q3 False = (e4, q4)" by fastforce
      have a2: "steps p q2"
        using r2 s steps_find_and_skip [of q "CHR '',''" e2 q2] steps_trans
        by (auto split: if_splits)
      have a3: "kept_ok p e3 q3" if "e2 = MU_JSON_ERR_NONE"
        using 5(1) [OF q_def g1 g2 r2 [symmetric]] that r3 a2 steps_then_kept_ok by simp
      have a4: "kept_ok p e4 q4" if "e2 = MU_JSON_ERR_NONE" "e3 = MU_JSON_ERR_NONE"
      proof -
        have "kept_ok q3 e4 q4"
          using 5(2) [OF q_def g1 g2 r2 [symmetric] _ r3 [symmetric]] that r4 by simp
        moreover have "steps p q3"
          using a3 that by (simp add: kept_ok_steps)
        ultimately show ?thesis
          by (rule steps_then_kept_ok [rotated])
      qed
      show ?thesis
        using r g1 g2 r2 r3 r4 a2 a3 a4
        by (auto simp: parse_array_loop.simps [of p] Let_def q_def [symmetric] steps_kept_ok
            split: if_splits)
    qed
  qed
qed

subsection \<open>The token array after a successful parse\<close>

lemma memset_tokens_length: "memset_tokens ts n = Some ts' \<Longrightarrow> length ts' = length ts"
  by (auto simp: memset_tokens_def split: if_splits)

lemma memset_tokens_nth:
  "memset_tokens ts n = Some ts' \<Longrightarrow> i < nat n \<Longrightarrow> ts' ! i = zero_token"
  by (auto simp: memset_tokens_def nth_append split: if_splits)

lemma memset_tokens_range:
  "memset_tokens ts n = Some ts' \<Longrightarrow> 0 \<le> n \<and> n \<le> int (length ts)"
  by (auto simp: memset_tokens_def split: if_splits)

lemma skip_whitespace_same:
  "token_count (skip_whitespace p) = token_count p"
  "token_store (skip_whitespace p) = token_store p"
  "str (skip_whitespace p) = str p"
  "level (skip_whitespace p) = level p"
  "max_tokens (skip_whitespace p) = max_tokens p"
proof -
  obtain n where "skip_whitespace p = p\<lparr>str_pos := n\<rparr>"
    using skip_whitespace_scan by blast
  then show "token_count (skip_whitespace p) = token_count p"
    "token_store (skip_whitespace p) = token_store p"
    "str (skip_whitespace p) = str p"
    "level (skip_whitespace p) = level p"
    "max_tokens (skip_whitespace p) = max_tokens p"
    by simp_all
qed

text \<open>\<open>parse_json\<close> on non-null arguments, with the reset and the final flag written out.\<close>

lemma parse_json_unfold:
  "parse_json (Some s') s_len (Some tokens) cap =
     (if s_len = 0 \<or> cap = 0 then Some (err_value MU_JSON_ERR_BAD_ARGUMENT, Some tokens)
      else
        (case memset_tokens tokens cap of
           None \<Rightarrow> None
         | Some ts0 \<Rightarrow>
             (case parse_element \<lparr>str = s', str_len = s_len, str_pos = 0, token_store = ts0,
                                  max_tokens = cap, token_count = 0, level = 0\<rparr> of
                (err, p1) \<Rightarrow>
                  if err \<noteq> MU_JSON_ERR_NONE then Some (err_value err, Some (token_store p1))
                  else if token_count p1 = 0
                  then Some (err_value MU_JSON_ERR_NO_ENTITIES, Some (token_store p1))
                  else if \<not> at_eos (skip_whitespace p1)
                  then Some (err_value MU_JSON_ERR_STRAY_INPUT, Some (token_store p1))
                  else Some (int (token_count p1),
                             Some ((token_store p1)[token_count p1 - 1 :=
                                (token_store p1 ! (token_count p1 - 1))
                                  \<lparr>tok_is_last := True\<rparr>])))))"
  by (simp add: parse_json_def parser_reset_def Let_def on_token_def set_token_is_last_def
      skip_whitespace_same split: option.splits prod.splits)

lemma err_value_nonpos: "err_value e \<le> 0"
  by (cases e) simp_all

text \<open>
  Everything the theorems below need from a successful \<open>parse_json\<close>: the zeroed array
  \<open>ts0\<close> that the parse starts from and the state \<open>p1\<close> after the top-level element.
\<close>

lemma parse_json_success:
  assumes r: "parse_json s s_len (Some tokens) cap = Some (n, out)" and pos: "0 < n"
  obtains s' ts0 p1 where "s = Some s'"
    and "memset_tokens tokens cap = Some ts0"
    and "parse_element \<lparr>str = s', str_len = s_len, str_pos = 0, token_store = ts0,
                        max_tokens = cap, token_count = 0, level = 0\<rparr>
           = (MU_JSON_ERR_NONE, p1)"
    and "n = int (token_count p1)"
    and "out = Some ((token_store p1)[token_count p1 - 1 :=
                (token_store p1 ! (token_count p1 - 1))\<lparr>tok_is_last := True\<rparr>])"
proof -
  obtain s' where s: "s = Some s'"
    using r pos by (cases s) (auto simp: parse_json_def)
  note u = r [unfolded s parse_json_unfold]
  have nz: "\<not> (s_len = 0 \<or> cap = 0)"
    using u pos by (auto split: if_splits)
  obtain ts0 where m: "memset_tokens tokens cap = Some ts0"
    using u nz by (cases "memset_tokens tokens cap") auto
  define p0 where "p0 = \<lparr>str = s', str_len = s_len, str_pos = 0, token_store = ts0,
      max_tokens = cap, token_count = 0, level = 0\<rparr>"
  obtain e p1 where e: "parse_element p0 = (e, p1)" by fastforce
  note v = u [unfolded m option.case, folded p0_def, unfolded e prod.case]
  have ok: "e = MU_JSON_ERR_NONE"
    using v nz pos err_value_nonpos [of e] by (auto split: if_splits)
  have "n = int (token_count p1)
      \<and> out = Some ((token_store p1)[token_count p1 - 1 :=
             (token_store p1 ! (token_count p1 - 1))\<lparr>tok_is_last := True\<rparr>])"
    using v nz pos ok by (auto split: if_splits)
  then show ?thesis
    using that [of s' ts0 p1] s m e ok by (simp add: p0_def)
qed


lemma parse_json_success_facts:
  assumes r: "parse_json s s_len (Some tokens) cap = Some (n, out)" and pos: "0 < n"
  shows "\<exists>ts. out = Some ts \<and> n \<le> cap \<and> cap \<le> int (length tokens)
      \<and> length ts = length tokens
      \<and> tok_level (ts ! 0) = 0 \<and> tok_is_last (ts ! nat (n - 1))
      \<and> (\<forall>i. i < nat n \<and> i \<noteq> nat (n - 1) \<longrightarrow> \<not> tok_is_last (ts ! i))"
proof (rule parse_json_success [OF r pos])
  fix s' ts0 p
  define p0 where "p0 = \<lparr>str = s', str_len = s_len, str_pos = 0, token_store = ts0,
      max_tokens = cap, token_count = 0, level = 0\<rparr>"
  assume m: "memset_tokens tokens cap = Some ts0"
    and "parse_element \<lparr>str = s', str_len = s_len, str_pos = 0, token_store = ts0,
                        max_tokens = cap, token_count = 0, level = 0\<rparr>
           = (MU_JSON_ERR_NONE, p)"
    and n: "n = int (token_count p)"
    and out: "out = Some ((token_store p)[token_count p - 1 :=
                (token_store p ! (token_count p - 1))\<lparr>tok_is_last := True\<rparr>])"
  then have e: "parse_element p0 = (MU_JSON_ERR_NONE, p)"
    by (simp add: p0_def)
  have p0: "token_count p0 = 0" "level p0 = 0" "max_tokens p0 = cap" "token_store p0 = ts0"
    by (simp_all add: p0_def)
  let ?ts = "(token_store p)[token_count p - 1 :=
                (token_store p ! (token_count p - 1))\<lparr>tok_is_last := True\<rparr>]"
  have "kept_ok p0 MU_JSON_ERR_NONE p"
    using parser_kept_ok(1) [of p0] e by blast
  then have k: "tokens_kept p0 p"
    by (simp add: kept_ok_def)
  have cap: "cap \<le> int (length tokens)" and cap0: "0 \<le> cap"
    using memset_tokens_range [OF m] by simp_all
  have len0: "length ts0 = length tokens"
    using memset_tokens_length [OF m] .
  have len: "length (token_store p) = length tokens"
    using k by (simp add: tokens_kept_def len0 p0)
  have "int (token_count p) \<le> max 0 cap"
    using k by (simp add: tokens_kept_def p0)
  then have ncap: "n \<le> cap"
    using n pos by (simp add: max_def split: if_splits)
  then have cpos: "0 < cap" and nlen: "token_count p \<le> length tokens"
    and npos: "0 < token_count p"
    using pos cap n by simp_all
  have flags: "map tok_is_last (token_store p) = map tok_is_last ts0"
    using k by (simp add: tokens_kept_def p0)
  have zero: "\<not> tok_is_last (token_store p ! i)" if "i < token_count p" for i
  proof -
    have "i < length (token_store p)" using that nlen len by simp
    then have "tok_is_last (token_store p ! i) = map tok_is_last (token_store p) ! i"
      by simp
    also have "\<dots> = tok_is_last (ts0 ! i)"
      using flags that nlen len0 by simp
    also have "ts0 ! i = zero_token"
      using that n ncap by (intro memset_tokens_nth [OF m]) simp
    finally show ?thesis by (simp add: zero_token_def)
  qed
  have ne: "0 < length tokens"
    using npos nlen by linarith
  then have lvl: "tok_level (token_store p ! 0) = 0"
    using k npos len0 by (simp add: tokens_kept_def p0)
  have lp: "token_count p - 1 < length (token_store p)" "0 < length (token_store p)"
    using npos nlen len ne by simp_all
  have "tok_level (?ts ! 0) = 0"
    using lvl lp by (simp add: nth_list_update)
  moreover have "tok_is_last (?ts ! nat (n - 1))"
    using n lp by (simp add: nat_diff_distrib')
  moreover have "\<not> tok_is_last (?ts ! i)" if "i < nat n \<and> i \<noteq> nat (n - 1)" for i
    using that zero [of i] n lp by (simp add: nat_diff_distrib' nth_list_update)
  ultimately show ?thesis
    using out ncap cap len by simp
qed

text \<open>
  C1. Whenever \<open>mu_json_parse_buffer\<close> or \<open>mu_json_parse_str\<close> returns a positive count
  \<open>n\<close> (the caller's array holding at least \<open>max_tokens\<close> tokens, as the interface
  requires), the token at index 0 has level 0, the token at index \<open>n - 1\<close> has \<open>is_last\<close>
  set, and none of the other tokens among the first \<open>n\<close> has it set.
\<close>

theorem parse_success_first_and_last:
  assumes "mu_json_parse_buffer input input_len (Some tokens) cap = Some (n, out)
           \<or> mu_json_parse_str s (Some tokens) cap = Some (n, out)"
    and "0 < n" and "cap \<le> int (length tokens)"
  shows "\<exists>ts. out = Some ts \<and> tok_level (ts ! 0) = 0 \<and> tok_is_last (ts ! nat (n - 1))
      \<and> (\<forall>i. i < nat n \<and> i \<noteq> nat (n - 1) \<longrightarrow> \<not> tok_is_last (ts ! i))"
proof -
  obtain a b where "parse_json a b (Some tokens) cap = Some (n, out)"
    using assms(1) unfolding mu_json_parse_buffer_def mu_json_parse_str_def by blast
  from parse_json_success_facts [OF this assms(2)] show ?thesis by blast
qed

theorem parse_success_first_and_last_witness:
  "\<exists>ts. mu_json_parse_str ''[1, [true]]'' (Some four_tokens) 4 = Some (4, Some ts)
      \<and> tok_level (ts ! 0) = 0 \<and> tok_is_last (ts ! 3)
      \<and> \<not> tok_is_last (ts ! 0) \<and> \<not> tok_is_last (ts ! 1) \<and> \<not> tok_is_last (ts ! 2)"
proof -
  have "map_option fst (mu_json_parse_str ''[1, [true]]'' (Some four_tokens) 4) = Some 4"
    by code_simp
  then obtain out where r:
    "mu_json_parse_str ''[1, [true]]'' (Some four_tokens) 4 = Some (4, out)"
    by (cases "mu_json_parse_str ''[1, [true]]'' (Some four_tokens) 4") auto
  have c: "(4::int) \<le> int (length four_tokens)"
    by (simp add: four_tokens_def)
  have "mu_json_parse_buffer None 0 (Some four_tokens) 4 = Some (4, out)
      \<or> mu_json_parse_str ''[1, [true]]'' (Some four_tokens) 4 = Some (4, out)"
    using r by simp
  from parse_success_first_and_last [OF this _ c]
  obtain ts where "out = Some ts" "tok_level (ts ! 0) = 0" "tok_is_last (ts ! nat (4 - 1))"
    "\<forall>i. i < nat 4 \<and> i \<noteq> nat (4 - 1) \<longrightarrow> \<not> tok_is_last (ts ! i)"
    by auto
  then show ?thesis
    using r by (intro exI [of _ ts]) simp
qed

subsection \<open>Where the tokens lie in the input\<close>

text \<open>
  \<open>scans p p'\<close>: the state \<open>p'\<close> is \<open>p\<close> with the read position moved forward, and
  nothing else changed. All loops that only read are of this kind.
\<close>

definition scans :: "parser_t \<Rightarrow> parser_t \<Rightarrow> bool" where
  "scans p p' = (\<exists>n. str_pos p \<le> n \<and> p' = p\<lparr>str_pos := n\<rparr>)"

lemma scans_refl [simp]: "scans p p"
  unfolding scans_def by (rule exI [of _ "str_pos p"]) simp

lemma scans_trans: "scans p q \<Longrightarrow> scans q r \<Longrightarrow> scans p r"
  unfolding scans_def by (elim exE conjE, rule_tac x = na in exI) simp

lemma scans_fields:
  assumes "scans p p'"
  shows "str p' = str p" "str_len p' = str_len p" "str_pos p \<le> str_pos p'"
    "token_store p' = token_store p" "max_tokens p' = max_tokens p"
    "token_count p' = token_count p" "level p' = level p"
  using assms by (auto simp: scans_def)

lemma scans_get_char [simp]: "scans p (snd (get_char p))"
  unfolding scans_def by (rule exI [of _ "Suc (str_pos p)"]) (simp add: get_char_def)


lemma scans_digits_loop: "digits_loop has p = (has', p') \<Longrightarrow> scans p p'"
proof -
  assume r: "digits_loop has p = (has', p')"
  obtain n where "snd (digits_loop has p) = p\<lparr>str_pos := n\<rparr>"
    using digits_loop_scan by blast
  then have n: "p' = p\<lparr>str_pos := n\<rparr>" using r by simp
  then have "str_pos p \<le> n" using digits_loop_pos [OF r] by simp
  then show ?thesis using n by (auto simp: scans_def)
qed



lemma scans_then_get_char: "scans p q \<Longrightarrow> scans p (snd (get_char q))"
  using scans_trans scans_get_char by blast


lemma scans_then_digits_loop:
  "digits_loop has q = (has', q') \<Longrightarrow> scans p q \<Longrightarrow> scans p q'"
  using scans_trans scans_digits_loop by blast


lemma scans_parse_number_integer: "parse_number_integer p = (e, p') \<Longrightarrow> scans p p'"
  by (auto simp: parse_number_integer_def Let_def split: if_splits prod.splits
      intro!: scans_then_get_char elim!: scans_then_digits_loop)

text \<open>
  \<open>writes_token p k p'\<close>: between \<open>p\<close> and \<open>p'\<close> the parser has read on and has written
  to the token with index \<open>k\<close> only, without moving its start.
\<close>

definition writes_token :: "parser_t \<Rightarrow> nat \<Rightarrow> parser_t \<Rightarrow> bool" where
  "writes_token p k p' =
     (str_pos p \<le> str_pos p' \<and> token_count p' = token_count p
      \<and> length (token_store p') = length (token_store p)
      \<and> (\<forall>i. i \<noteq> k \<longrightarrow> token_store p' ! i = token_store p ! i)
      \<and> tok_str (token_store p' ! k) = tok_str (token_store p ! k))"

lemma writes_token_refl [simp]: "writes_token p k p"
  by (simp add: writes_token_def)

lemma writes_token_trans:
  "writes_token p k q \<Longrightarrow> writes_token q k r \<Longrightarrow> writes_token p k r"
  by (auto simp: writes_token_def)

lemma scans_writes_token: "scans p p' \<Longrightarrow> writes_token p k p'"
  by (auto simp: scans_def writes_token_def)

lemma writes_token_on_token:
  assumes "\<And>t. tok_str (f t) = tok_str t"
  shows "writes_token p k (on_token p k f)"
proof (cases "k < length (token_store p)")
  case True
  then show ?thesis
    by (simp add: writes_token_def on_token_def assms)
next
  case False
  then show ?thesis
    by (simp add: writes_token_def on_token_def list_update_beyond)
qed

lemma writes_token_then_scans: "writes_token p k q \<Longrightarrow> scans q r \<Longrightarrow> writes_token p k r"
  using writes_token_trans scans_writes_token by blast

lemma writes_parse_number_fraction:
  assumes "parse_number_fraction p k = (e, p')"
  shows "writes_token p k p'"
proof (cases "\<not> at_eos p \<and> peek_char p = CHR ''.''")
  case True
  define q where "q = on_token p k (\<lambda>t. set_token_type t MU_JSON_TOKEN_TYPE_NUMBER)"
  obtain h q' where d: "digits_loop False (snd (get_char q)) = (h, q')" by fastforce
  have "writes_token p k q"
    unfolding q_def by (rule writes_token_on_token) (simp add: set_token_type_def)
  moreover have "scans q q'"
    using scans_digits_loop [OF d] scans_get_char scans_trans by blast
  ultimately have "writes_token p k q'"
    by (rule writes_token_then_scans)
  moreover have "p' = q'"
    using assms True d
    by (auto simp: parse_number_fraction_def Let_def q_def [symmetric] split: if_splits)
  ultimately show ?thesis by simp
next
  case False
  then have "p' = p"
    using assms by (auto simp: parse_number_fraction_def)
  then show ?thesis by simp
qed

lemma writes_parse_number_exponent:
  assumes "parse_number_exponent p k = (e, p')"
  shows "writes_token p k p'"
proof (cases "\<not> at_eos p \<and> (peek_char p = CHR ''e'' \<or> peek_char p = CHR ''E'')")
  case True
  define q where "q = snd (get_char (on_token p k (\<lambda>t. set_token_type t MU_JSON_TOKEN_TYPE_NUMBER)))"
  define q2 where "q2 = (if \<not> at_eos q \<and> (peek_char q = CHR ''+'' \<or> peek_char q = CHR ''-'')
                   then snd (get_char q) else q)"
  obtain h q' where d: "digits_loop False q2 = (h, q')" by fastforce
  have "writes_token p k (on_token p k (\<lambda>t. set_token_type t MU_JSON_TOKEN_TYPE_NUMBER))"
    by (rule writes_token_on_token) (simp add: set_token_type_def)
  then have "writes_token p k q"
    unfolding q_def by (rule writes_token_then_scans) simp
  moreover have "scans q q2"
    by (simp add: q2_def)
  moreover have "scans q2 q'"
    by (rule scans_digits_loop [OF d])
  ultimately have "writes_token p k q'"
    using writes_token_then_scans by blast
  moreover have "parse_number_exponent p k =
      (case digits_loop False q2 of
         (has_exponent_digits, p4) \<Rightarrow>
           if \<not> has_exponent_digits then (MU_JSON_ERR_BAD_FORMAT, p4)
           else (MU_JSON_ERR_NONE, p4))"
    using True by (simp add: parse_number_exponent_def Let_def q_def q2_def)
  then have "p' = q'"
    using assms d by (simp split: if_splits)
  ultimately show ?thesis by simp
next
  case False
  then have "p' = p"
    using assms by (auto simp: parse_number_exponent_def)
  then show ?thesis by simp
qed

text \<open>
  The text of a token, as the token records it: it starts at \<open>tok_str\<close> and has
  \<open>tok_str_len\<close> bytes. \<open>token_within t a b\<close>: the text of \<open>t\<close> lies between the offsets
  \<open>a\<close> and \<open>b\<close>. \<open>starts_inside u t\<close>: the token \<open>u\<close> starts inside the text of \<open>t\<close>.
\<close>

definition token_within :: "mu_json_token_t \<Rightarrow> nat \<Rightarrow> nat \<Rightarrow> bool" where
  "token_within t a b =
     (case tok_str t of None \<Rightarrow> False | Some s \<Rightarrow> a \<le> s \<and> s + unat (tok_str_len t) \<le> b)"

definition starts_inside :: "mu_json_token_t \<Rightarrow> mu_json_token_t \<Rightarrow> bool" where
  "starts_inside u t =
     (case tok_str t of
        None \<Rightarrow> False
      | Some a \<Rightarrow>
          (case tok_str u of
             None \<Rightarrow> False
           | Some b \<Rightarrow> a \<le> b \<and> b < a + unat (tok_str_len t)))"



text \<open>
  \<open>spans_ok p p'\<close> relates a parser state to a later one: the tokens that \<open>p\<close> had are
  untouched; each token added since lies in the input read since; and of two
  neighbours among the added tokens, if the second starts inside the text of the first,
  then its level is one more than that of the first.
\<close>

definition spans_ok :: "parser_t \<Rightarrow> parser_t \<Rightarrow> bool" where
  "spans_ok p p' =
     (str_pos p \<le> str_pos p' \<and> token_count p \<le> token_count p'
      \<and> length (token_store p') = length (token_store p)
      \<and> (\<forall>i. i < token_count p \<longrightarrow> token_store p' ! i = token_store p ! i)
      \<and> (\<forall>i. token_count p \<le> i \<and> i < token_count p' \<and> i < length (token_store p)
            \<longrightarrow> token_within (token_store p' ! i) (str_pos p) (str_pos p'))
      \<and> (\<forall>i. token_count p \<le> i \<and> Suc i < token_count p' \<and> Suc i < length (token_store p)
            \<longrightarrow> starts_inside (token_store p' ! Suc i) (token_store p' ! i)
            \<longrightarrow> tok_level (token_store p' ! Suc i) = tok_level (token_store p' ! i) + 1))"

lemma spans_ok_refl [simp]: "spans_ok p p"
  by (auto simp: spans_ok_def)












subsection \<open>Navigation\<close>















subsection \<open>Arrays nested deeper than the level field counts\<close>


text \<open>
  What \<open>parse_array\<close>, called at the \<open>j\<close>-th opening bracket, does to the token array:
  it writes the token \<open>j\<close>, the tokens of the arrays inside are written, and at the
  closing bracket the length of the token \<open>j\<close> is set.
\<close>

function nested_store :: "nat \<Rightarrow> nat \<Rightarrow> mu_json_token_t list \<Rightarrow> mu_json_token_t list" where
  "nested_store k j ts =
     (if k \<le> j then ts
      else
        (let ts1 = ts[j := (ts ! j)\<lparr>tok_str := Some j, tok_type := MU_JSON_TOKEN_TYPE_ARRAY,
                                   tok_level := of_nat j\<rparr>];
             ts2 = nested_store k (Suc j) ts1
         in ts2[j := (ts2 ! j)\<lparr>tok_str_len := of_nat (2 * (k - j))\<rparr>]))"
  by pat_completeness auto
termination
  by (relation "measure (\<lambda>(k, j, ts). k - j)") auto

declare nested_store.simps [simp del]

lemma nested_store_length [simp]: "length (nested_store k j ts) = length ts"
proof (induction k j ts rule: nested_store.induct)
  case (1 k j ts)
  show ?case
  proof (cases "k \<le> j")
    case True
    then show ?thesis by (simp add: nested_store.simps [of k j])
  next
    case False
    then show ?thesis
      using "1.IH" [OF False refl] by (simp add: nested_store.simps [of k j] Let_def)
  qed
qed











text \<open>The tokens of \<open>nested_arrays k\<close>: the array \<open>i\<close> starts at the offset \<open>i\<close>, at level \<open>i\<close>.\<close>

definition nested_tokens :: "nat \<Rightarrow> mu_json_token_t list" where
  "nested_tokens k =
     map (\<lambda>i. \<lparr>tok_str = Some i, tok_str_len = of_nat (2 * (k - i)),
                tok_type = MU_JSON_TOKEN_TYPE_ARRAY, tok_level = of_nat i,
                tok_is_last = (Suc i = k)\<rparr>) [0..<k]"


lemma nested_tokens_length [simp]: "length (nested_tokens k) = k"
  by (simp add: nested_tokens_def)



subsection \<open>Numbers\<close>

text \<open>\<open>digits_loop\<close> changes only the read position, and what it passes over are digits.\<close>

lemma digits_loop_chars:
  "digits_loop has p = (has', p') \<Longrightarrow> str_pos p \<le> i \<Longrightarrow> i < str_pos p'
     \<Longrightarrow> CHR ''0'' \<le> str p ! i \<and> str p ! i \<le> CHR ''9''"
proof (induction has p arbitrary: has' p' rule: digits_loop.induct)
  case (1 has p)
  show ?case
  proof (cases "\<not> at_eos p \<and> peek_char p \<ge> CHR ''0'' \<and> peek_char p \<le> CHR ''9''")
    case True
    then have r: "digits_loop True (snd (get_char p)) = (has', p')"
      using "1.prems"(1) by (subst (asm) digits_loop.simps) (simp add: Let_def)
    show ?thesis
    proof (cases "i = str_pos p")
      case True
      then show ?thesis
        using \<open>\<not> at_eos p \<and> _\<close> by (simp add: peek_char_def)
    next
      case False
      then have "str_pos (snd (get_char p)) \<le> i" using "1.prems"(2) by simp
      from "1.IH" [OF _ refl _ r this "1.prems"(3)] True show ?thesis by simp
    qed
  next
    case False
    then have "p' = p"
      using "1.prems"(1)
      by (subst (asm) digits_loop.simps) (auto simp: Let_def split: if_splits)
    then show ?thesis using "1.prems"(2,3) by simp
  qed
qed

text \<open>The sign and integer digits block consumes only \<^verbatim>\<open>-\<close> and digits.\<close>

lemma parse_number_integer_chars:
  assumes r: "parse_number_integer p = (e, p')" and i: "str_pos p \<le> i" "i < str_pos p'"
  shows "str p ! i = CHR ''-'' \<or> (CHR ''0'' \<le> str p ! i \<and> str p ! i \<le> CHR ''9'')"
proof -
  define p1 where "p1 = (if peek_char p = CHR ''-'' then snd (get_char p) else p)"
  define z where "z = (\<not> at_eos p1 \<and> peek_char p1 = CHR ''0'')"
  define p2 where "p2 = (if z then snd (get_char p1) else p1)"
  obtain h p3 where d: "digits_loop False p2 = (h, p3)" by fastforce
  have s1: "str p1 = str p" "str_pos p \<le> str_pos p1"
    by (simp_all add: p1_def)
  have c1: "str p ! i = CHR ''-''" if "str_pos p \<le> i" "i < str_pos p1" for i
  proof (cases "peek_char p = CHR ''-''")
    case True
    then have "i = str_pos p" using that by (simp add: p1_def)
    then show ?thesis using True by (simp add: peek_char_def)
  next
    case False
    then show ?thesis using that by (simp add: p1_def)
  qed
  have s2: "str p2 = str p" "str_pos p1 \<le> str_pos p2"
    using s1 by (simp_all add: p2_def)
  have c2: "str p ! i = CHR ''0''" if "str_pos p1 \<le> i" "i < str_pos p2" for i
  proof (cases z)
    case True
    then have "i = str_pos p1" using that by (simp add: p2_def)
    then show ?thesis using True s1 by (simp add: z_def peek_char_def)
  next
    case False
    then show ?thesis using that by (simp add: p2_def)
  qed
  have s3: "str_pos p2 \<le> str_pos p3"
    using digits_loop_pos [OF d] by simp
  have c3: "CHR ''0'' \<le> str p ! i \<and> str p ! i \<le> CHR ''9''"
    if "str_pos p2 \<le> i" "i < str_pos p3" for i
    using digits_loop_chars [OF d that] s2 by simp
  have all: "str p ! i = CHR ''-'' \<or> (CHR ''0'' \<le> str p ! i \<and> str p ! i \<le> CHR ''9'')"
    if "str_pos p \<le> i" "i < str_pos p3" for i
  proof -
    consider "i < str_pos p1" | "str_pos p1 \<le> i" "i < str_pos p2" | "str_pos p2 \<le> i"
      by linarith
    then show ?thesis
    proof cases
      case 1
      then show ?thesis using c1 that by simp
    next
      case 2
      then have "str p ! i = CHR ''0''" by (rule c2)
      then show ?thesis by simp
    next
      case 3
      then show ?thesis using c3 that by simp
    qed
  qed
  have "parse_number_integer p =
      (if at_eos p1 then (MU_JSON_ERR_INCOMPLETE, p1)
       else if z \<and> \<not> at_eos p2 \<and> peek_char p2 = CHR ''0'' then (MU_JSON_ERR_BAD_FORMAT, p2)
       else
         (case digits_loop False p2 of
            (has_integer_part, p3) \<Rightarrow>
              if z \<and> has_integer_part then (MU_JSON_ERR_BAD_FORMAT, p3)
              else if \<not> z \<and> \<not> has_integer_part then (MU_JSON_ERR_BAD_FORMAT, p3)
              else (MU_JSON_ERR_NONE, p3)))"
    unfolding parse_number_integer_def Let_def p1_def p2_def z_def by (rule refl)
  then have "parse_number_integer p =
      (if at_eos p1 then (MU_JSON_ERR_INCOMPLETE, p1)
       else if z \<and> \<not> at_eos p2 \<and> peek_char p2 = CHR ''0'' then (MU_JSON_ERR_BAD_FORMAT, p2)
       else if z \<and> h then (MU_JSON_ERR_BAD_FORMAT, p3)
       else if \<not> z \<and> \<not> h then (MU_JSON_ERR_BAD_FORMAT, p3)
       else (MU_JSON_ERR_NONE, p3))"
    by (simp only: d prod.case)
  then have "p' = p1 \<or> p' = p2 \<or> p' = p3"
    using r by (auto split: if_splits)
  then have "str_pos p' \<le> str_pos p3"
    using s2 s3 by auto
  then show ?thesis
    using all [of i] i by simp
qed

text \<open>
  The fraction and the exponent block: entered at a \<^verbatim>\<open>.\<close> (an \<^verbatim>\<open>e\<close> or \<^verbatim>\<open>E\<close>), the block
  makes the token a \<open>NUMBER\<close> and consumes that byte; otherwise it does nothing.
\<close>

lemma parse_number_fraction_result:
  assumes r: "parse_number_fraction p k = (MU_JSON_ERR_NONE, p')"
    and k: "k < length (token_store p)"
  shows "\<not> at_eos p \<and> peek_char p = CHR ''.'' \<Longrightarrow>
           tok_type (token_store p' ! k) = MU_JSON_TOKEN_TYPE_NUMBER \<and> str_pos p < str_pos p'"
    and "\<not> (\<not> at_eos p \<and> peek_char p = CHR ''.'') \<Longrightarrow> p' = p"
    and "str p' = str p"
proof -
  define q where "q = snd (get_char (on_token p k (\<lambda>t. set_token_type t MU_JSON_TOKEN_TYPE_NUMBER)))"
  obtain h q' where d: "digits_loop False q = (h, q')" by fastforce
  have q: "str_pos q = Suc (str_pos p)"
    "tok_type (token_store q ! k) = MU_JSON_TOKEN_TYPE_NUMBER" "str q = str p"
    using k by (simp_all add: q_def on_token_def set_token_type_def)
  have q': "str_pos q \<le> str_pos q'" "token_store q' = token_store q" "str q' = str q"
    using scans_fields [OF scans_digits_loop [OF d]] by simp_all
  have "parse_number_fraction p k =
      (if \<not> at_eos p \<and> peek_char p = CHR ''.''
       then (if \<not> h then (MU_JSON_ERR_BAD_FORMAT, q') else (MU_JSON_ERR_NONE, q'))
       else (MU_JSON_ERR_NONE, p))"
    using d by (simp add: parse_number_fraction_def Let_def q_def [symmetric])
  then have eq: "(if \<not> at_eos p \<and> peek_char p = CHR ''.''
       then (if \<not> h then (MU_JSON_ERR_BAD_FORMAT, q') else (MU_JSON_ERR_NONE, q'))
       else (MU_JSON_ERR_NONE, p)) = (MU_JSON_ERR_NONE, p')"
    using r by simp
  show "tok_type (token_store p' ! k) = MU_JSON_TOKEN_TYPE_NUMBER \<and> str_pos p < str_pos p'"
    if "\<not> at_eos p \<and> peek_char p = CHR ''.''"
  proof -
    have "p' = q'" using eq that by (cases h) simp_all
    then show ?thesis using q q' by simp
  qed
  show "p' = p" if "\<not> (\<not> at_eos p \<and> peek_char p = CHR ''.'')"
    using eq that by auto
  show "str p' = str p"
  proof (cases "\<not> at_eos p \<and> peek_char p = CHR ''.''")
    case True
    then have "p' = q'" using eq by (cases h) simp_all
    then show ?thesis using q q' by simp
  next
    case False
    then show ?thesis using eq by auto
  qed
qed

lemma parse_number_exponent_result:
  assumes r: "parse_number_exponent p k = (MU_JSON_ERR_NONE, p')"
    and k: "k < length (token_store p)"
  shows "\<not> at_eos p \<and> (peek_char p = CHR ''e'' \<or> peek_char p = CHR ''E'') \<Longrightarrow>
           tok_type (token_store p' ! k) = MU_JSON_TOKEN_TYPE_NUMBER \<and> str_pos p < str_pos p'"
    and "\<not> (\<not> at_eos p \<and> (peek_char p = CHR ''e'' \<or> peek_char p = CHR ''E'')) \<Longrightarrow> p' = p"
    and "str p' = str p"
proof -
  define q where "q = snd (get_char (on_token p k (\<lambda>t. set_token_type t MU_JSON_TOKEN_TYPE_NUMBER)))"
  define q2 where "q2 = (if \<not> at_eos q \<and> (peek_char q = CHR ''+'' \<or> peek_char q = CHR ''-'')
                   then snd (get_char q) else q)"
  obtain h q' where d: "digits_loop False q2 = (h, q')" by fastforce
  have q: "str_pos q = Suc (str_pos p)"
    "tok_type (token_store q ! k) = MU_JSON_TOKEN_TYPE_NUMBER" "str q = str p"
    using k by (simp_all add: q_def on_token_def set_token_type_def)
  have q2: "str_pos q \<le> str_pos q2" "token_store q2 = token_store q" "str q2 = str q"
    by (simp_all add: q2_def)
  have q': "str_pos q2 \<le> str_pos q'" "token_store q' = token_store q2" "str q' = str q2"
    using scans_fields [OF scans_digits_loop [OF d]] by simp_all
  have "parse_number_exponent p k =
      (if \<not> at_eos p \<and> (peek_char p = CHR ''e'' \<or> peek_char p = CHR ''E'')
       then (case digits_loop False q2 of
               (has_exponent_digits, p4) \<Rightarrow>
                 if \<not> has_exponent_digits then (MU_JSON_ERR_BAD_FORMAT, p4)
                 else (MU_JSON_ERR_NONE, p4))
       else (MU_JSON_ERR_NONE, p))"
    by (simp add: parse_number_exponent_def Let_def q_def q2_def)
  then have "parse_number_exponent p k =
      (if \<not> at_eos p \<and> (peek_char p = CHR ''e'' \<or> peek_char p = CHR ''E'')
       then (if \<not> h then (MU_JSON_ERR_BAD_FORMAT, q') else (MU_JSON_ERR_NONE, q'))
       else (MU_JSON_ERR_NONE, p))"
    by (simp add: d)
  then have eq: "(if \<not> at_eos p \<and> (peek_char p = CHR ''e'' \<or> peek_char p = CHR ''E'')
       then (if \<not> h then (MU_JSON_ERR_BAD_FORMAT, q') else (MU_JSON_ERR_NONE, q'))
       else (MU_JSON_ERR_NONE, p)) = (MU_JSON_ERR_NONE, p')"
    using r by simp
  show "tok_type (token_store p' ! k) = MU_JSON_TOKEN_TYPE_NUMBER \<and> str_pos p < str_pos p'"
    if "\<not> at_eos p \<and> (peek_char p = CHR ''e'' \<or> peek_char p = CHR ''E'')"
  proof -
    have "p' = q'" using eq that by (cases h) simp_all
    then show ?thesis using q q2 q' by simp
  qed
  show "p' = p"
    if "\<not> (\<not> at_eos p \<and> (peek_char p = CHR ''e'' \<or> peek_char p = CHR ''E''))"
    using eq that by auto
  show "str p' = str p"
  proof (cases "\<not> at_eos p \<and> (peek_char p = CHR ''e'' \<or> peek_char p = CHR ''E'')")
    case True
    then have "p' = q'" using eq by (cases h) simp_all
    then show ?thesis using q q2 q' by simp
  next
    case False
    then show ?thesis using eq by auto
  qed
qed

lemma digit_is_no_mark:
  "c = CHR ''-'' \<or> (CHR ''0'' \<le> c \<and> c \<le> CHR ''9'')
   \<Longrightarrow> c \<noteq> CHR ''.'' \<and> c \<noteq> CHR ''e'' \<and> c \<noteq> CHR ''E''"
  by (auto simp: less_eq_char_def)

text \<open>The tokens that the concrete runs below leave in a zeroed array of four.\<close>

definition one_token ::
  "16 word \<Rightarrow> mu_json_token_type_t \<Rightarrow> mu_json_token_t list" where
  "one_token n ty =
     \<lparr>tok_str = Some 0, tok_str_len = n, tok_type = ty, tok_level = 0, tok_is_last = True\<rparr>
       # replicate 3 zero_token"

text \<open>
  C5. When \<open>parse_number\<close> succeeds, the token that it wrote starts where the number
  starts, has the length of the bytes consumed, and is a \<open>NUMBER\<close> if one of these bytes
  is \<^verbatim>\<open>.\<close>, \<^verbatim>\<open>e\<close> or \<^verbatim>\<open>E\<close> and an \<open>INTEGER\<close> otherwise (the token's slot being inside the
  caller's array). In particular \<^verbatim>\<open>0\<close> and \<^verbatim>\<open>-0\<close> parse to an \<open>INTEGER\<close>, \<^verbatim>\<open>0.0\<close> and \<^verbatim>\<open>0e0\<close>
  to a \<open>NUMBER\<close>, and \<^verbatim>\<open>01\<close> is rejected with a negative error code.
\<close>

theorem number_classification:
  assumes "parse_number p = (MU_JSON_ERR_NONE, p')"
    and "token_count p < length (token_store p)"
  shows "tok_str (token_store p' ! token_count p) = Some (str_pos p)
       \<and> tok_str_len (token_store p' ! token_count p) = of_nat (str_pos p' - str_pos p)
       \<and> tok_type (token_store p' ! token_count p) =
           (if \<exists>i. str_pos p \<le> i \<and> i < str_pos p'
                  \<and> (str p ! i = CHR ''.'' \<or> str p ! i = CHR ''e'' \<or> str p ! i = CHR ''E'')
            then MU_JSON_TOKEN_TYPE_NUMBER else MU_JSON_TOKEN_TYPE_INTEGER)
       \<and> mu_json_parse_str ''0'' (Some four_tokens) 4
           = Some (1, Some (one_token 1 MU_JSON_TOKEN_TYPE_INTEGER))
       \<and> mu_json_parse_str ''0.0'' (Some four_tokens) 4
           = Some (1, Some (one_token 3 MU_JSON_TOKEN_TYPE_NUMBER))
       \<and> mu_json_parse_str ''0e0'' (Some four_tokens) 4
           = Some (1, Some (one_token 3 MU_JSON_TOKEN_TYPE_NUMBER))
       \<and> mu_json_parse_str ''-0'' (Some four_tokens) 4
           = Some (1, Some (one_token 2 MU_JSON_TOKEN_TYPE_INTEGER))
       \<and> map_option fst (mu_json_parse_str ''01'' (Some four_tokens) 4)
           = Some (err_value MU_JSON_ERR_BAD_FORMAT)
       \<and> err_value MU_JSON_ERR_BAD_FORMAT < 0"
proof -
  have g: "\<not> (at_eos p \<or> \<not> is_number_prefix (peek_char p))"
    using assms(1) by (auto simp: parse_number_def split: if_splits)
  obtain a where "init_token p MU_JSON_TOKEN_TYPE_INTEGER = Some a"
    using assms(1) g
    by (cases "init_token p MU_JSON_TOKEN_TYPE_INTEGER") (auto simp: parse_number_def)
  then obtain k p1 where init: "init_token p MU_JSON_TOKEN_TYPE_INTEGER = Some (k, p1)"
    by (cases a) simp
  obtain e2 p2 where r2: "parse_number_integer p1 = (e2, p2)" by fastforce
  obtain e3 p3 where r3: "parse_number_fraction p2 k = (e3, p3)" by fastforce
  obtain e4 p4 where r4: "parse_number_exponent p3 k = (e4, p4)" by fastforce
  have "parse_number p =
      (if e2 \<noteq> MU_JSON_ERR_NONE then (e2, p2)
       else if e3 \<noteq> MU_JSON_ERR_NONE then (e3, p3)
       else if e4 \<noteq> MU_JSON_ERR_NONE then (e4, p4)
       else (MU_JSON_ERR_NONE, finalize_token p4 k))"
    using g init r2 r3 r4 by (simp add: parse_number_def)
  then have p': "p' = finalize_token p4 k" and ok: "e2 = MU_JSON_ERR_NONE"
    "e3 = MU_JSON_ERR_NONE" "e4 = MU_JSON_ERR_NONE"
    using assms(1) by (simp_all split: if_splits)
  have f1: "token_count p = k" "str p1 = str p" "str_pos p1 = str_pos p"
    "length (token_store p1) = length (token_store p)"
    using init_token_fields [OF init] by simp_all
  have k: "k < length (token_store p)"
    using assms(2) f1 by simp
  have t1: "tok_str (token_store p1 ! k) = Some (str_pos p)"
    "tok_type (token_store p1 ! k) = MU_JSON_TOKEN_TYPE_INTEGER"
    using init_token_store [OF init] k f1(1) by simp_all
  note sc2 = scans_fields [OF scans_parse_number_integer [OF r2]]
  have f2: "str p2 = str p" "str_pos p \<le> str_pos p2" "token_store p2 = token_store p1"
    using sc2 f1 by simp_all
  have k2: "k < length (token_store p2)"
    using k f2 f1 by simp
  define ftaken where "ftaken = (\<not> at_eos p2 \<and> peek_char p2 = CHR ''.'')"
  note fr = parse_number_fraction_result [OF r3 [unfolded ok] k2, folded ftaken_def]
  have w3: "writes_token p2 k p3"
    using r3 by (rule writes_parse_number_fraction)
  have f3: "str p3 = str p" "str_pos p2 \<le> str_pos p3"
    "length (token_store p3) = length (token_store p2)"
    using fr(3) f2 w3 by (simp_all add: writes_token_def)
  have k3: "k < length (token_store p3)"
    using k2 f3 by simp
  define etaken where
    "etaken = (\<not> at_eos p3 \<and> (peek_char p3 = CHR ''e'' \<or> peek_char p3 = CHR ''E''))"
  note er = parse_number_exponent_result [OF r4 [unfolded ok] k3, folded etaken_def]
  have w4: "writes_token p3 k p4"
    using r4 by (rule writes_parse_number_exponent)
  have f4: "str_pos p3 \<le> str_pos p4" "length (token_store p4) = length (token_store p3)"
    using w4 by (simp_all add: writes_token_def)
  have k4: "k < length (token_store p4)"
    using k3 f4 by simp
  have start4: "tok_str (token_store p4 ! k) = Some (str_pos p)"
    using w3 w4 t1 f2 by (simp add: writes_token_def)
  have pos4: "str_pos p \<le> str_pos p4"
    using f2 f3 f4 by simp
  have type4: "tok_type (token_store p4 ! k) =
      (if ftaken \<or> etaken then MU_JSON_TOKEN_TYPE_NUMBER else MU_JSON_TOKEN_TYPE_INTEGER)"
  proof (cases etaken)
    case True
    then show ?thesis using er(1) by simp
  next
    case False
    then have e: "p4 = p3" using er(2) by simp
    show ?thesis
    proof (cases ftaken)
      case True
      then show ?thesis using fr(1) e by simp
    next
      case nf: False
      then have "p3 = p2" using fr(2) by simp
      then show ?thesis using e nf False f2 t1 by simp
    qed
  qed
  have mark: "(\<exists>i. str_pos p \<le> i \<and> i < str_pos p4
                  \<and> (str p ! i = CHR ''.'' \<or> str p ! i = CHR ''e'' \<or> str p ! i = CHR ''E''))
      = (ftaken \<or> etaken)"
  proof (cases "ftaken \<or> etaken")
    case True
    then consider ftaken | etaken by blast
    then have "\<exists>i. str_pos p \<le> i \<and> i < str_pos p4
                  \<and> (str p ! i = CHR ''.'' \<or> str p ! i = CHR ''e'' \<or> str p ! i = CHR ''E'')"
    proof cases
      case 1
      then have "str p ! str_pos p2 = CHR ''.''" "str_pos p2 < str_pos p3"
        using fr(1) f2 by (simp_all add: ftaken_def peek_char_def)
      then show ?thesis
        using f2(2) f4(1) by (intro exI [of _ "str_pos p2"]) simp
    next
      case 2
      then have "str p ! str_pos p3 = CHR ''e'' \<or> str p ! str_pos p3 = CHR ''E''"
        "str_pos p3 < str_pos p4"
        using er(1) f3 by (simp_all add: etaken_def peek_char_def)
      then show ?thesis
        using f2(2) f3(2) by (intro exI [of _ "str_pos p3"]) auto
    qed
    then show ?thesis using True by simp
  next
    case False
    then have "p4 = p2" using fr(2) er(2) by simp
    moreover have "str p ! i \<noteq> CHR ''.'' \<and> str p ! i \<noteq> CHR ''e'' \<and> str p ! i \<noteq> CHR ''E''"
      if "str_pos p \<le> i" "i < str_pos p2" for i
      using parse_number_integer_chars [OF r2, of i] that f1 digit_is_no_mark by simp
    ultimately show ?thesis using False by auto
  qed
  have st: "token_store p' = (token_store p4)[k := (token_store p4 ! k)
      \<lparr>tok_str_len := of_int (ptr_diff (str_pos p4) (tok_str (token_store p4 ! k)))\<rparr>]"
    and pp: "str_pos p' = str_pos p4"
    by (simp_all add: p' finalize_token_def on_token_def set_token_string_length_def
        ref_char_def get_token_string_def)
  have "int (str_pos p4) - int (str_pos p) = int (str_pos p4 - str_pos p)"
    using pos4 by simp
  then have len: "(of_int (ptr_diff (str_pos p4) (Some (str_pos p))) :: 16 word)
      = of_nat (str_pos p4 - str_pos p)"
    by (simp only: ptr_diff_def option.case of_int_of_nat_eq)
  have general: "tok_str (token_store p' ! token_count p) = Some (str_pos p)
       \<and> tok_str_len (token_store p' ! token_count p) = of_nat (str_pos p' - str_pos p)
       \<and> tok_type (token_store p' ! token_count p) =
           (if \<exists>i. str_pos p \<le> i \<and> i < str_pos p'
                  \<and> (str p ! i = CHR ''.'' \<or> str p ! i = CHR ''e'' \<or> str p ! i = CHR ''E'')
            then MU_JSON_TOKEN_TYPE_NUMBER else MU_JSON_TOKEN_TYPE_INTEGER)"
    using k4 start4 type4 len by (simp add: f1(1) st pp mark)
  have c1: "mu_json_parse_str ''0'' (Some four_tokens) 4
           = Some (1, Some (one_token 1 MU_JSON_TOKEN_TYPE_INTEGER))"
    by code_simp
  have c2: "mu_json_parse_str ''0.0'' (Some four_tokens) 4
           = Some (1, Some (one_token 3 MU_JSON_TOKEN_TYPE_NUMBER))"
    by code_simp
  have c3: "mu_json_parse_str ''0e0'' (Some four_tokens) 4
           = Some (1, Some (one_token 3 MU_JSON_TOKEN_TYPE_NUMBER))"
    by code_simp
  have c4: "mu_json_parse_str ''-0'' (Some four_tokens) 4
           = Some (1, Some (one_token 2 MU_JSON_TOKEN_TYPE_INTEGER))"
    by code_simp
  have c5: "map_option fst (mu_json_parse_str ''01'' (Some four_tokens) 4)
           = Some (err_value MU_JSON_ERR_BAD_FORMAT)"
    by code_simp
  have c6: "err_value MU_JSON_ERR_BAD_FORMAT < 0"
    by simp
  show ?thesis
    using general c1 c2 c3 c4 c5 c6 by (intro conjI) blast+
qed

text \<open>The parser at the start of \<^verbatim>\<open>0e0\<close>, with a zeroed array of four tokens.\<close>

definition number_example :: parser_t where
  "number_example = \<lparr>str = ''0e0'', str_len = 3, str_pos = 0, token_store = four_tokens,
                     max_tokens = 4, token_count = 0, level = 0\<rparr>"

theorem number_classification_witness:
  "fst (parse_number number_example) = MU_JSON_ERR_NONE
   \<and> token_count number_example < length (token_store number_example)
   \<and> str_pos (snd (parse_number number_example)) = 3
   \<and> str number_example ! 1 = CHR ''e''
   \<and> tok_type (token_store (snd (parse_number number_example)) ! 0)
       = MU_JSON_TOKEN_TYPE_NUMBER"
proof -
  have e: "fst (parse_number number_example) = MU_JSON_ERR_NONE"
    and n: "str_pos (snd (parse_number number_example)) = 3"
    by code_simp+
  have r: "parse_number number_example = (MU_JSON_ERR_NONE, snd (parse_number number_example))"
    using e by (metis prod.collapse)
  have l: "token_count number_example < length (token_store number_example)"
    and c: "str number_example ! 1 = CHR ''e''" and z: "token_count number_example = 0"
    and s: "str_pos number_example = 0"
    by (simp_all add: number_example_def four_tokens_def)
  have "\<exists>i. str_pos number_example \<le> i \<and> i < str_pos (snd (parse_number number_example))
      \<and> (str number_example ! i = CHR ''.'' \<or> str number_example ! i = CHR ''e''
          \<or> str number_example ! i = CHR ''E'')"
    using c n s by (intro exI [of _ 1]) simp
  then have "tok_type (token_store (snd (parse_number number_example)) ! 0)
       = MU_JSON_TOKEN_TYPE_NUMBER"
    using number_classification [OF r l] z by simp
  then show ?thesis
    using e l n c by simp
qed

subsection \<open>Bytes with the high bit set\<close>


















end
